theory Spec2Isabelle
  imports Complex_Main "HOL-Library.Word" "HOL-Library.Multiset"
begin

section \<open>JavaScript values and strings\<close>

text \<open>
  A JavaScript string is a sequence of UTF-16 code units. The regular expressions of
  \<^verbatim>\<open>utils.js\<close> and \<^verbatim>\<open>stats.js\<close> carry no \<^verbatim>\<open>u\<close> flag, so they match code unit
  by code unit, and \<^verbatim>\<open>length\<close> counts code units.
\<close>

type_synonym jschar = "16 word"
type_synonym jsstring = "jschar list"

text \<open>A string literal of the source, as code units.\<close>

definition lit :: "string \<Rightarrow> jsstring" where
  "lit s = map of_char s"

text \<open>
  The values a field of the document can hold where the code tests \<^verbatim>\<open>typeof\<close> or
  truthiness. A number only ever meets \<^verbatim>\<open>=== 3\<close> (the heading level).
\<close>

datatype jsval = JUndefined | JNull | JBool bool | JNum int | JStr jsstring

fun truthy :: "jsval \<Rightarrow> bool" where
  "truthy JUndefined = False"
| "truthy JNull = False"
| "truthy (JBool b) = b"
| "truthy (JNum n) = (n \<noteq> 0)"
| "truthy (JStr s) = (s \<noteq> [])"

text \<open>
  \<^verbatim>\<open>\s\<close> and \<^verbatim>\<open>String.prototype.trim\<close> use the same set: WhiteSpace (TAB, VT, FF, SP,
  NBSP, ZWNBSP and the Unicode space separators) and LineTerminator (LF, CR, LS, PS).
\<close>

definition isWhitespace :: "jschar \<Rightarrow> bool" where
  "isWhitespace c \<longleftrightarrow>
     c = 0x09 \<or> c = 0x0A \<or> c = 0x0B \<or> c = 0x0C \<or> c = 0x0D \<or> c = 0x20 \<or> c = 0xA0 \<or>
     c = 0x1680 \<or> (0x2000 \<le> c \<and> c \<le> 0x200A) \<or> c = 0x2028 \<or> c = 0x2029 \<or>
     c = 0x202F \<or> c = 0x205F \<or> c = 0x3000 \<or> c = 0xFEFF"

definition trim :: "jsstring \<Rightarrow> jsstring" where
  "trim s = rev (dropWhile isWhitespace (rev (dropWhile isWhitespace s)))"

fun startsWith :: "jsstring \<Rightarrow> jsstring \<Rightarrow> bool" where
  "startsWith s [] = True"
| "startsWith [] (p # ps) = False"
| "startsWith (c # cs) (p # ps) = (c = p \<and> startsWith cs ps)"

fun includesStr :: "jsstring \<Rightarrow> jsstring \<Rightarrow> bool" where
  "includesStr [] p = (p = [])"
| "includesStr (c # cs) p = (startsWith (c # cs) p \<or> includesStr cs p)"

text \<open>\<^verbatim>\<open>Array.prototype.join\<close> on an array of strings.\<close>

fun join :: "jsstring \<Rightarrow> jsstring list \<Rightarrow> jsstring" where
  "join sep [] = []"
| "join sep [x] = x"
| "join sep (x # y # ys) = x @ sep @ join sep (y # ys)"

text \<open>\<^verbatim>\<open>str.replace(/c/g, r)\<close> for a single character \<open>c\<close>.\<close>

definition replaceAll :: "jschar \<Rightarrow> jsstring \<Rightarrow> jsstring \<Rightarrow> jsstring" where
  "replaceAll c r s = concat (map (\<lambda>x. if x = c then r else [x]) s)"

section \<open>utils.js: escaping\<close>

text \<open>\<^verbatim>\<open>REGEX.htmlEntities = /[&<>"']/g\<close>: the character class.\<close>

definition htmlEntities :: "jschar \<Rightarrow> bool" where
  "htmlEntities c \<longleftrightarrow>
     c = of_char CHR ''&'' \<or> c = of_char CHR ''<'' \<or> c = of_char CHR ''>'' \<or>
     c = of_char CHR 0x22 \<or> c = of_char CHR 0x27"

definition HTML_ENTITY_MAP :: "jschar \<rightharpoonup> jsstring" where
  "HTML_ENTITY_MAP =
     [of_char CHR ''&'' \<mapsto> lit ''&amp;'',
      of_char CHR ''<'' \<mapsto> lit ''&lt;'',
      of_char CHR ''>'' \<mapsto> lit ''&gt;'',
      of_char CHR 0x22 \<mapsto> lit ''&quot;'',
      of_char CHR 0x27 \<mapsto> lit ''&#39;'']"

text \<open>
  \<^verbatim>\<open>str.replace(REGEX.htmlEntities, char => HTML_ENTITY_MAP[char])\<close>; a replacement
  function that returns \<^verbatim>\<open>undefined\<close> inserts the text \<^verbatim>\<open>undefined\<close>.
\<close>

definition escapeChar :: "jschar \<Rightarrow> jsstring" where
  "escapeChar c =
     (if htmlEntities c
      then (case HTML_ENTITY_MAP c of Some e \<Rightarrow> e | None \<Rightarrow> lit ''undefined'')
      else [c])"

definition escapeHTML :: "jsval \<Rightarrow> jsstring" where
  "escapeHTML str =
     (case str of JStr s \<Rightarrow> concat (map escapeChar s) | _ \<Rightarrow> [])"

definition escapeAttribute :: "jsval \<Rightarrow> jsstring" where
  "escapeAttribute str =
     (case str of
        JStr s \<Rightarrow>
          replaceAll (of_char CHR ''>'') (lit ''&gt;'')
            (replaceAll (of_char CHR ''<'') (lit ''&lt;'')
              (replaceAll (of_char CHR 0x27) (lit ''&#39;'')
                (replaceAll (of_char CHR 0x22) (lit ''&quot;'')
                  (replaceAll (of_char CHR ''&'') (lit ''&amp;'') s))))
      | _ \<Rightarrow> [])"

section \<open>utils.js: validateURL\<close>

text \<open>
  Two built-ins of the JavaScript runtime are not code of this repository and are taken
  as parameters: \<^verbatim>\<open>String.prototype.toLowerCase\<close>, and the constructor \<^verbatim>\<open>new URL(s)\<close>,
  which either throws (\<open>None\<close>) or yields an object with a \<^verbatim>\<open>protocol\<close> and an \<^verbatim>\<open>href\<close>.
\<close>

record parsed_url =
  protocol :: jsstring
  parsed_href :: jsstring

record builtins =
  toLowerCase :: "jsstring \<Rightarrow> jsstring"
  URL :: "jsstring \<Rightarrow> parsed_url option"

text \<open>The result object; the success branch sets no \<^verbatim>\<open>error\<close> property.\<close>

record url_result =
  valid :: bool
  url :: jsstring
  error :: "jsstring option"

definition validateURL :: "builtins \<Rightarrow> jsval \<Rightarrow> url_result" where
  \<open>validateURL env u =
     (case u of
        JStr s \<Rightarrow>
          if s = [] then \<lparr>valid = False, url = [], error = Some (lit ''URL is required'')\<rparr>
          else
            let trimmed = trim s;
                lower = toLowerCase env trimmed
            in if startsWith lower (lit ''javascript:'') \<or> startsWith lower (lit ''data:'') \<or>
                  startsWith lower (lit ''vbscript:'')
               then \<lparr>valid = False, url = [], error = Some (lit ''Invalid URL protocol'')\<rparr>
               else
                 (case URL env trimmed of
                    Some parsed \<Rightarrow>
                      if protocol parsed \<notin> set [lit ''http:'', lit ''https:'', lit ''mailto:'']
                      then \<lparr>valid = False, url = [],
                            error = Some (lit ''Only HTTP, HTTPS, and mailto links are allowed'')\<rparr>
                      else \<lparr>valid = True, url = parsed_href parsed, error = None\<rparr>
                  | None \<Rightarrow>
                      if \<not> includesStr trimmed (lit ''://'') \<and> \<not> startsWith trimmed (lit ''mailto:'')
                      then
                        (case URL env (lit ''https://'' @ trimmed) of
                           Some parsed \<Rightarrow> \<lparr>valid = True, url = parsed_href parsed, error = None\<rparr>
                         | None \<Rightarrow>
                             \<lparr>valid = False, url = [], error = Some (lit ''Invalid URL format'')\<rparr>)
                      else \<lparr>valid = False, url = [], error = Some (lit ''Invalid URL format'')\<rparr>)
      | _ \<Rightarrow> \<lparr>valid = False, url = [], error = Some (lit ''URL is required'')\<rparr>)\<close>

section \<open>export.js: the document model\<close>

text \<open>
  The document tree of the editing framework: every node is an object with a
  \<^verbatim>\<open>type\<close> string; \<^verbatim>\<open>attrs\<close>, \<^verbatim>\<open>content\<close> and \<^verbatim>\<open>marks\<close> may be absent (\<open>None\<close>; for
  the two arrays also: not an array), and \<^verbatim>\<open>text\<close>, \<^verbatim>\<open>attrs.level\<close> and \<^verbatim>\<open>attrs.href\<close>
  hold any value (\<open>JUndefined\<close> when absent). The entries of \<^verbatim>\<open>content\<close> and \<^verbatim>\<open>marks\<close> are
  objects, as the framework produces them: a \<^verbatim>\<open>null\<close> entry, on which \<^verbatim>\<open>child.type\<close> would
  throw, is not a value of these types.
\<close>

record attrs =
  level :: jsval
  href :: jsval

datatype mark = Mark (mtype: jsstring) (mattrs: "attrs option")

datatype node =
  Node (ntype: jsstring) (nattrs: "attrs option") (content: "node list option")
       (ntext: jsval) (marks: "mark list option")

section \<open>export.js: text nodes and marks\<close>

text \<open>\<^verbatim>\<open>Array.prototype.indexOf\<close>: the first index, or \<open>-1\<close>.\<close>

fun indexOf :: "'a list \<Rightarrow> 'a \<Rightarrow> int" where
  "indexOf [] x = - 1"
| "indexOf (y # ys) x =
     (if x = y then 0 else (let i = indexOf ys x in if i < 0 then - 1 else i + 1))"

definition order :: "jsstring list" where
  "order = [lit ''link'', lit ''bold'', lit ''italic'', lit ''code'']"

text \<open>
  \<^verbatim>\<open>[...node.marks].sort((a, b) => order.indexOf(a.type) - order.indexOf(b.type))\<close>.
  \<^verbatim>\<open>Array.prototype.sort\<close> is stable, and the comparator is the difference of two
  keys, so the result is the stable sort by the key \<^verbatim>\<open>order.indexOf(m.type)\<close>.
\<close>

definition sortMarks :: "mark list \<Rightarrow> mark list" where
  "sortMarks ms = sort_key (\<lambda>m. indexOf order (mtype m)) ms"

text \<open>
  The \<^verbatim>\<open>switch (mark.type)\<close> of the loop: the opening tag pushed onto \<^verbatim>\<open>open\<close> and the
  closing tag put in front of \<^verbatim>\<open>close\<close>, or nothing.
\<close>

definition markTags :: "builtins \<Rightarrow> mark \<Rightarrow> (jsstring \<times> jsstring) option" where
  \<open>markTags env m =
     (if mtype m = lit ''bold'' then Some (lit ''<strong>'', lit ''</strong>'')
      else if mtype m = lit ''italic'' then Some (lit ''<em>'', lit ''</em>'')
      else if mtype m = lit ''code'' then Some (lit ''<code>'', lit ''</code>'')
      else if mtype m = lit ''link'' then
        (let h = (case mattrs m of
                    Some a \<Rightarrow> if truthy (href a) then href a else JStr []
                  | None \<Rightarrow> JStr []);
             validation = validateURL env h
         in if valid validation
            then Some (lit ''<a href="'' @ escapeAttribute (JStr (url validation)) @ lit ''">'',
                       lit ''</a>'')
            else None)
      else None)\<close>

definition pushMark ::
    "builtins \<Rightarrow> jsstring list \<times> jsstring list \<Rightarrow> mark \<Rightarrow> jsstring list \<times> jsstring list" where
  "pushMark env oc m =
     (case markTags env m of
        Some (t_open, t_close) \<Rightarrow> (fst oc @ [t_open], t_close # snd oc)
      | None \<Rightarrow> oc)"

definition processText :: "builtins \<Rightarrow> node \<Rightarrow> jsstring" where
  "processText env n =
     (if ntype n \<noteq> lit ''text'' then []
      else
        (case ntext n of
           JStr s \<Rightarrow>
             (let t = escapeHTML (JStr s) in
              case marks n of
                None \<Rightarrow> t
              | Some ms \<Rightarrow>
                  if length ms = 0 then t
                  else
                    (let sorted = sortMarks ms;
                         oc = foldl (pushMark env) ([], []) sorted
                     in join [] (fst oc) @ t @ join [] (snd oc)))
         | _ \<Rightarrow> []))"

definition processInline :: "builtins \<Rightarrow> node list option \<Rightarrow> jsstring" where
  "processInline env c =
     (case c of None \<Rightarrow> [] | Some ns \<Rightarrow> join [] (map (processText env) ns))"

section \<open>export.js: block nodes\<close>

definition processParagraph :: "builtins \<Rightarrow> node \<Rightarrow> jsstring" where
  "processParagraph env n =
     (let c = processInline env (content n) in
      if c = [] \<or> trim c = [] then [] else lit ''<p>'' @ c @ lit ''</p>'')"

definition processHeading :: "builtins \<Rightarrow> node \<Rightarrow> jsstring" where
  "processHeading env n =
     (let lvl = (case nattrs n of
                   Some a \<Rightarrow> (case level a of JNum k \<Rightarrow> k | _ \<Rightarrow> 2)
                 | None \<Rightarrow> 2);
          tag = (if lvl = 3 then lit ''h3'' else lit ''h2'');
          c = processInline env (content n)
      in if c = [] \<or> trim c = [] then []
         else lit ''<'' @ tag @ lit ''>'' @ c @ lit ''</'' @ tag @ lit ''>'')"

lemma size_content: "content n = Some cs \<Longrightarrow> c \<in> set cs \<Longrightarrow> size c < size n"
  by (cases n) (auto simp: less_Suc_eq_le dest: size_list_estimation' [where f = size and y = "size c"])

function processNode :: "builtins \<Rightarrow> node \<Rightarrow> jsstring"
  and processBulletList :: "builtins \<Rightarrow> node \<Rightarrow> jsstring"
  and processListItem :: "builtins \<Rightarrow> node \<Rightarrow> jsstring"
  and processBlockquote :: "builtins \<Rightarrow> node \<Rightarrow> jsstring"
where
  "processNode env n =
     (if ntype n = [] then []
      else if ntype n = lit ''paragraph'' then processParagraph env n
      else if ntype n = lit ''heading'' then processHeading env n
      else if ntype n = lit ''bulletList'' then processBulletList env n
      else if ntype n = lit ''listItem'' then processListItem env n
      else if ntype n = lit ''blockquote'' then processBlockquote env n
      else if ntype n = lit ''text'' then processText env n
      else
        (case content n of
           Some cs \<Rightarrow> join [] (filter (\<lambda>s. s \<noteq> []) (map (processNode env) cs))
         | None \<Rightarrow> []))"
| "processBulletList env n =
     (case content n of
        None \<Rightarrow> []
      | Some cs \<Rightarrow>
          if length cs = 0 then []
          else
            (let items = filter (\<lambda>s. s \<noteq> []) (map (processNode env) cs) in
             if length items = 0 then []
             else lit ''<ul>\<newline>'' @ join (lit ''\<newline>'') items @ lit ''\<newline></ul>''))"
| "processListItem env n =
     (case content n of
        None \<Rightarrow> []
      | Some cs \<Rightarrow>
          (let parts =
             filter (\<lambda>s. s \<noteq> [])
               (map (\<lambda>child.
                       if ntype child = lit ''paragraph'' then processInline env (content child)
                       else if ntype child = lit ''bulletList'' then processBulletList env child
                       else processNode env child) cs)
           in if length parts = 0 then []
              else lit ''<li>'' @ join [] parts @ lit ''</li>''))"
| "processBlockquote env n =
     (case content n of
        None \<Rightarrow> []
      | Some cs \<Rightarrow>
          (let parts =
             filter (\<lambda>s. s \<noteq> [])
               (map (\<lambda>child.
                       if ntype child = lit ''paragraph'' then processInline env (content child)
                       else processNode env child) cs)
           in if length parts = 0 then []
              else lit ''<blockquote>'' @ join (lit ''<br>'') parts @ lit ''</blockquote>''))"
  by pat_completeness auto
termination
  by (relation "measures [\<lambda>x. case x of
                              Inl (Inl (_, n)) \<Rightarrow> size n
                            | Inl (Inr (_, n)) \<Rightarrow> size n
                            | Inr (Inl (_, n)) \<Rightarrow> size n
                            | Inr (Inr (_, n)) \<Rightarrow> size n,
                        \<lambda>x. case x of Inl (Inl _) \<Rightarrow> 1 | _ \<Rightarrow> 0]")
     (auto simp: size_content)

declare processNode.simps [simp del] processBulletList.simps [simp del]
  processListItem.simps [simp del] processBlockquote.simps [simp del]

definition generateCleanHTML :: "builtins \<Rightarrow> node \<Rightarrow> jsstring" where
  "generateCleanHTML env json =
     (case content json of
        None \<Rightarrow> []
      | Some cs \<Rightarrow> join (lit ''\<newline>'') (filter (\<lambda>s. s \<noteq> []) (map (processNode env) cs)))"

section \<open>utils.js: text utilities\<close>

text \<open>\<^verbatim>\<open>REGEX.zeroWidth = /[\u200B-\u200D\uFEFF]/g\<close> and \<^verbatim>\<open>REGEX.cjk\<close>: the classes.\<close>

definition zeroWidth :: "jschar \<Rightarrow> bool" where
  "zeroWidth c \<longleftrightarrow> (0x200B \<le> c \<and> c \<le> 0x200D) \<or> c = 0xFEFF"

definition cjk :: "jschar \<Rightarrow> bool" where
  "cjk c \<longleftrightarrow>
     (0x4E00 \<le> c \<and> c \<le> 0x9FFF) \<or> (0x3400 \<le> c \<and> c \<le> 0x4DBF) \<or>
     (0x3040 \<le> c \<and> c \<le> 0x309F) \<or> (0x30A0 \<le> c \<and> c \<le> 0x30FF) \<or>
     (0xAC00 \<le> c \<and> c \<le> 0xD7AF)"

definition normalizeText :: "jsval \<Rightarrow> jsstring" where
  "normalizeText v = (case v of JStr s \<Rightarrow> filter (\<lambda>c. \<not> zeroWidth c) s | _ \<Rightarrow> [])"

text \<open>
  \<^verbatim>\<open>REGEX.cjk\<close> has the \<^verbatim>\<open>g\<close> flag, so \<^verbatim>\<open>REGEX.cjk.test\<close> is stateful: it searches
  from \<^verbatim>\<open>lastIndex\<close>, leaves \<^verbatim>\<open>lastIndex\<close> behind the match it finds, and resets it to
  0 when it finds none. The state is the \<open>nat\<close> threaded through the functions below.
  \<^verbatim>\<open>text.match(REGEX.cjk)\<close> starts from 0 and leaves \<^verbatim>\<open>lastIndex\<close> at 0.
\<close>

definition regexTest :: "(jschar \<Rightarrow> bool) \<Rightarrow> nat \<Rightarrow> jsstring \<Rightarrow> bool \<times> nat" where
  "regexTest cls lastIndex s =
     (if lastIndex > length s then (False, 0)
      else
        (let k = lastIndex + length (takeWhile (\<lambda>c. \<not> cls c) (drop lastIndex s)) in
         if k < length s then (True, k + 1) else (False, 0)))"

definition containsCJK :: "nat \<Rightarrow> jsval \<Rightarrow> bool \<times> nat" where
  "containsCJK lastIndex v =
     (case v of JStr s \<Rightarrow> regexTest cjk lastIndex s | _ \<Rightarrow> (False, lastIndex))"

definition countCJK :: "nat \<Rightarrow> jsval \<Rightarrow> nat \<times> nat" where
  "countCJK lastIndex v =
     (case v of JStr s \<Rightarrow> (length (filter cjk s), 0) | _ \<Rightarrow> (0, lastIndex))"

section \<open>stats.js\<close>

record stats =
  words :: nat
  characters :: nat
  readingTimeMinutes :: nat

definition WORDS_PER_MINUTE :: nat where
  "WORDS_PER_MINUTE = 200"

text \<open>
  \<^verbatim>\<open>text.split(WORD_SPLIT)\<close> with \<^verbatim>\<open>WORD_SPLIT = /\s+/\<close>: the pieces between the runs of
  whitespace, an empty piece in front of a leading run and behind a trailing one.
  \<open>cur\<close> is the piece being read.
\<close>

function splitRuns :: "jsstring \<Rightarrow> jsstring \<Rightarrow> jsstring list" where
  "splitRuns cur [] = [cur]"
| "splitRuns cur (c # cs) =
     (if isWhitespace c then cur # splitRuns [] (dropWhile isWhitespace cs)
      else splitRuns (cur @ [c]) cs)"
  by pat_completeness auto
termination
  by (relation "measure (\<lambda>(cur, s). length s)")
     (auto simp: le_imp_less_Suc length_dropWhile_le)

definition split_WORD_SPLIT :: "jsstring \<Rightarrow> jsstring list" where
  "split_WORD_SPLIT s = splitRuns [] s"

definition calculateWordCount :: "nat \<Rightarrow> jsstring \<Rightarrow> nat \<times> nat" where
  "calculateWordCount lastIndex t =
     (if t = [] then (0, lastIndex)
      else
        (case containsCJK lastIndex (JStr t) of
           (True, li1) \<Rightarrow>
             (case countCJK li1 (JStr t) of
                (cjkCount, li2) \<Rightarrow>
                  (let westernText = map (\<lambda>c. if cjk c then 0x20 else c) t;
                       westernWords = filter (\<lambda>w. length w > 0) (split_WORD_SPLIT westernText)
                   in (cjkCount + length westernWords, li2)))
         | (False, li1) \<Rightarrow>
             (length (filter (\<lambda>w. length w > 0) (split_WORD_SPLIT t)), li1)))"

text \<open>
  \<^verbatim>\<open>Math.ceil(words / WORDS_PER_MINUTE)\<close>. The quotient of a count below \<open>2^53\<close> by 200
  is an integer or at least \<open>1/200\<close> away from one, so the rounding of the floating-point
  division never crosses an integer and the ceiling is that of the exact quotient.
\<close>

definition calculateStats :: "nat \<Rightarrow> jsval \<Rightarrow> stats \<times> nat" where
  "calculateStats lastIndex v =
     (case v of
        JStr s \<Rightarrow>
          if s = [] then (\<lparr>words = 0, characters = 0, readingTimeMinutes = 0\<rparr>, lastIndex)
          else
            (let normalized = normalizeText (JStr s);
                 trimmed = trim normalized
             in if trimmed = [] then (\<lparr>words = 0, characters = 0, readingTimeMinutes = 0\<rparr>, lastIndex)
                else
                  (let chars = length (filter (\<lambda>c. \<not> isWhitespace c) trimmed) in
                   case calculateWordCount lastIndex trimmed of
                     (w, li) \<Rightarrow>
                       (\<lparr>words = w, characters = chars,
                         readingTimeMinutes =
                           nat \<lceil>(of_nat w :: rat) / of_nat WORDS_PER_MINUTE\<rceil>\<rparr>, li)))
      | _ \<Rightarrow> (\<lparr>words = 0, characters = 0, readingTimeMinutes = 0\<rparr>, lastIndex))"

section \<open>Auxiliary notions\<close>

text \<open>The pairs of tags the loop of \<^verbatim>\<open>processText\<close> pushes for a list of marks, in order.\<close>

definition emitted :: "builtins \<Rightarrow> mark list \<Rightarrow> (jsstring \<times> jsstring) list" where
  "emitted env ms = concat (map (\<lambda>m. case markTags env m of Some p \<Rightarrow> [p] | None \<Rightarrow> []) ms)"

text \<open>What the five passes of \<^verbatim>\<open>escapeAttribute\<close> make of one character.\<close>

definition attributeChar :: "jschar \<Rightarrow> jsstring" where
  "attributeChar c =
     (if c = of_char CHR ''&'' then lit ''&amp;'' else if c = of_char CHR 0x22 then lit ''&quot;''
      else if c = of_char CHR 0x27 then lit ''&#39;'' else if c = of_char CHR ''<'' then lit ''&lt;''
      else if c = of_char CHR ''>'' then lit ''&gt;'' else [c])"

section \<open>A sample runtime\<close>

text \<open>
  For concrete instances: ASCII lower-casing, and a parser that accepts what starts
  with \<^verbatim>\<open>https://\<close> or \<^verbatim>\<open>ftp://\<close> and reports that scheme.
\<close>

definition sample_env :: builtins where
  "sample_env =
     \<lparr>toLowerCase = map (\<lambda>c. if 0x41 \<le> c \<and> c \<le> 0x5A then c + 0x20 else c),
      URL = (\<lambda>s. if startsWith s (lit ''https://'')
                 then Some \<lparr>protocol = lit ''https:'', parsed_href = s\<rparr>
                 else if startsWith s (lit ''ftp://'')
                 then Some \<lparr>protocol = lit ''ftp:'', parsed_href = s\<rparr>
                 else None)\<rparr>"

section \<open>The vocabulary of the specification\<close>

text \<open>An invalid result: \<^verbatim>\<open>valid: false\<close>, the empty \<^verbatim>\<open>url\<close> and a non-empty \<^verbatim>\<open>error\<close>.\<close>

definition rejected :: "url_result \<Rightarrow> bool" where
  "rejected r \<longleftrightarrow> \<not> valid r \<and> url r = [] \<and> (case error r of Some e \<Rightarrow> e \<noteq> [] | None \<Rightarrow> False)"

text \<open>
  The specification's words, for comparison with the code: the non-empty
  whitespace-delimited tokens of a string are its maximal runs of non-whitespace
  characters.
\<close>

function spec_tokens :: "jsstring \<Rightarrow> jsstring list" where
  "spec_tokens [] = []"
| "spec_tokens (c # cs) =
     (if isWhitespace c then spec_tokens cs
      else takeWhile (\<lambda>x. \<not> isWhitespace x) (c # cs) #
           spec_tokens (dropWhile (\<lambda>x. \<not> isWhitespace x) cs))"
  by pat_completeness auto
termination
  by (relation "measure length") (auto simp: le_imp_less_Suc length_dropWhile_le)

text \<open>The allowed tag set of the specification, and the five entities of the escaping.\<close>

definition ALLOWED_TAGS :: "jsstring list" where
  "ALLOWED_TAGS =
     map lit [''p'', ''h2'', ''h3'', ''ul'', ''li'', ''strong'', ''em'', ''a'', ''code'', ''blockquote'']"

text \<open>The tags the exporter writes: the allowed set and \<^verbatim>\<open>br\<close>.\<close>

definition EXPORT_TAGS :: "jsstring list" where
  "EXPORT_TAGS = ALLOWED_TAGS @ [lit ''br'']"

definition ENTITIES :: "jsstring list" where
  "ENTITIES = map lit [''amp'', ''lt'', ''gt'', ''quot'', ''#39'']"

text \<open>
  What a consumer validating the output checks, as a scanner over the output string.
  In text, \<^verbatim>\<open><\<close> opens a tag, \<^verbatim>\<open>&\<close> opens an entity and a bare \<^verbatim>\<open>>\<close> is refused. A tag is
  \<^verbatim>\<open><name>\<close> or \<^verbatim>\<open></name>\<close> with the name among \<open>tags\<close>, or \<^verbatim>\<open><a href="..."\<close>\<^verbatim>\<open>>\<close> whose value holds
  no \<^verbatim>\<open><\<close>, \<^verbatim>\<open>>\<close>, quote or apostrophe and \<^verbatim>\<open>&\<close> only in front of an entity. An entity is
  \<^verbatim>\<open>&\<close>, one of the five names, \<^verbatim>\<open>;\<close>.
\<close>

datatype scan = InText | InEntity jsstring | InTag jsstring | InHref | InHrefEntity jsstring | AfterHref

fun scanStep :: "jsstring list \<Rightarrow> scan \<Rightarrow> jschar \<Rightarrow> scan option" where
  "scanStep tags InText c =
     (if c = of_char CHR ''<'' then Some (InTag [])
      else if c = of_char CHR ''&'' then Some (InEntity [])
      else if c = of_char CHR ''>'' then None
      else Some InText)"
| "scanStep tags (InEntity e) c =
     (if c = of_char CHR '';'' then (if e \<in> set ENTITIES then Some InText else None)
      else Some (InEntity (e @ [c])))"
| "scanStep tags (InTag t) c =
     (if c = of_char CHR ''>''
      then (if t \<in> set tags \<or> t \<in> set (map ((#) (of_char CHR ''/'')) tags) then Some InText else None)
      else if c = of_char CHR 0x22
      then (if t = lit ''a href='' \<and> lit ''a'' \<in> set tags then Some InHref else None)
      else if c = of_char CHR ''<'' then None
      else Some (InTag (t @ [c])))"
| "scanStep tags InHref c =
     (if c = of_char CHR 0x22 then Some AfterHref
      else if c = of_char CHR ''&'' then Some (InHrefEntity [])
      else if c = of_char CHR ''<'' \<or> c = of_char CHR ''>'' \<or> c = of_char CHR 0x27 then None
      else Some InHref)"
| "scanStep tags (InHrefEntity e) c =
     (if c = of_char CHR '';'' then (if e \<in> set ENTITIES then Some InHref else None)
      else Some (InHrefEntity (e @ [c])))"
| "scanStep tags AfterHref c = (if c = of_char CHR ''>'' then Some InText else None)"

definition scanFrom :: "jsstring list \<Rightarrow> scan \<Rightarrow> jsstring \<Rightarrow> scan option" where
  "scanFrom tags q s =
     foldl (\<lambda>st c. case st of None \<Rightarrow> None | Some q' \<Rightarrow> scanStep tags q' c) (Some q) s"

definition cleanHTML :: "jsstring list \<Rightarrow> jsstring \<Rightarrow> bool" where
  "cleanHTML tags s \<longleftrightarrow> scanFrom tags InText s = Some InText"

text \<open>A piece of output that takes the scanner from a state back to that state.\<close>

definition passes :: "jsstring list \<Rightarrow> scan \<Rightarrow> jsstring \<Rightarrow> bool" where
  "passes tags q s \<longleftrightarrow> scanFrom tags q s = Some q"

section \<open>Escaping: properties\<close>

lemma escapeChar_plain: "\<not> htmlEntities c \<Longrightarrow> escapeChar c = [c]"
  by (simp add: escapeChar_def)

lemma concat_map_singleton: "(\<And>x. x \<in> set xs \<Longrightarrow> f x = [x]) \<Longrightarrow> concat (map f xs) = xs"
  by (induction xs) simp_all

text \<open>
  C6 as stated: a string with no raw \<^verbatim>\<open>&\<close>, \<^verbatim>\<open><\<close>, \<^verbatim>\<open>>\<close> comes back unchanged. It fails
  on a double quote, which \<^verbatim>\<open>escapeHTML\<close> also replaces.
\<close>

theorem escapeHTML_quote_counterexample:
  "of_char CHR ''&'' \<notin> set (lit [CHR 0x22]) \<and> of_char CHR ''<'' \<notin> set (lit [CHR 0x22]) \<and>
   of_char CHR ''>'' \<notin> set (lit [CHR 0x22]) \<and>
   escapeHTML (JStr (lit [CHR 0x22])) = lit ''&quot;'' \<and>
   escapeHTML (JStr (lit [CHR 0x22])) \<noteq> lit [CHR 0x22]"
  by (simp add: escapeHTML_def escapeChar_def htmlEntities_def HTML_ENTITY_MAP_def lit_def)

text \<open>
  C6, amended: for every string containing none of the five characters of
  \<^verbatim>\<open>REGEX.htmlEntities\<close> (\<^verbatim>\<open>&\<close>, \<^verbatim>\<open><\<close>, \<^verbatim>\<open>>\<close>, the double quote and the apostrophe),
  \<^verbatim>\<open>escapeHTML\<close> returns the string unchanged.
\<close>

theorem escapeHTML_noop:
  assumes "\<forall>c \<in> set s. c \<noteq> of_char CHR ''&'' \<and> c \<noteq> of_char CHR ''<'' \<and> c \<noteq> of_char CHR ''>'' \<and>
             c \<noteq> of_char CHR 0x22 \<and> c \<noteq> of_char CHR 0x27"
  shows "escapeHTML (JStr s) = s"
proof -
  have "escapeChar c = [c]" if "c \<in> set s" for c
    using assms that by (intro escapeChar_plain) (simp add: htmlEntities_def)
  then show ?thesis
    by (simp add: escapeHTML_def concat_map_singleton)
qed

theorem escapeHTML_noop_witness:
  "escapeHTML (JStr (lit ''hello world'')) = lit ''hello world''"
  by (rule escapeHTML_noop) (simp add: lit_def)

section \<open>Marks: the sorted order\<close>

lemma join_empty_sep: "join [] xs = concat xs"
  by (induction "[] :: jsstring" xs rule: join.induct) simp_all

lemma insort_key_front:
  "(\<And>y. y \<in> set ys \<Longrightarrow> f x \<le> f y) \<Longrightarrow> insort_key f x ys = x # ys"
  by (cases ys) simp_all

lemma insort_key_past:
  "(\<And>y. y \<in> set us \<Longrightarrow> f y < f x) \<Longrightarrow> insort_key f x (us @ ys) = us @ insort_key f x ys"
  by (induction us) (simp_all add: not_le [symmetric])

text \<open>A stable sort over a finite, sorted set of keys lists the keys' buckets in order.\<close>

lemma insort_key_buckets:
  fixes f :: "'a \<Rightarrow> int"
  assumes "sorted ks" "distinct ks" "f x \<in> set ks"
  shows "insort_key f x (concat (map (\<lambda>k. filter (\<lambda>y. f y = k) xs) ks)) =
         concat (map (\<lambda>k. filter (\<lambda>y. f y = k) (x # xs)) ks)"
  using assms
proof (induction ks)
  case Nil
  then show ?case by simp
next
  case (Cons k ks)
  show ?case
  proof (cases "f x = k")
    case True
    have "filter (\<lambda>y. f y = k') (x # xs) = filter (\<lambda>y. f y = k') xs" if "k' \<in> set ks" for k'
      using that Cons.prems(2) True by auto
    then have rest: "concat (map (\<lambda>k'. filter (\<lambda>y. f y = k') (x # xs)) ks) =
                     concat (map (\<lambda>k'. filter (\<lambda>y. f y = k') xs) ks)"
      by (intro arg_cong [where f = concat] map_cong) simp_all
    have "f x \<le> f y" if "y \<in> set (concat (map (\<lambda>k. filter (\<lambda>y. f y = k) xs) (k # ks)))" for y
      using that Cons.prems(1) True by auto
    then have "insort_key f x (concat (map (\<lambda>k. filter (\<lambda>y. f y = k) xs) (k # ks))) =
               x # concat (map (\<lambda>k. filter (\<lambda>y. f y = k) xs) (k # ks))"
      by (rule insort_key_front)
    moreover have "concat (map (\<lambda>k. filter (\<lambda>y. f y = k) (x # xs)) (k # ks)) =
               x # concat (map (\<lambda>k. filter (\<lambda>y. f y = k) xs) (k # ks))"
      unfolding list.map concat.simps rest using True by simp
    ultimately show ?thesis by simp
  next
    case False
    then have mem: "f x \<in> set ks" using Cons.prems(3) by simp
    then have lt: "k < f x" using Cons.prems(1) False by (auto simp: less_le)
    have "insort_key f x (filter (\<lambda>y. f y = k) xs @ concat (map (\<lambda>k. filter (\<lambda>y. f y = k) xs) ks)) =
          filter (\<lambda>y. f y = k) xs @ insort_key f x (concat (map (\<lambda>k. filter (\<lambda>y. f y = k) xs) ks))"
      using lt by (intro insort_key_past) simp
    moreover have "insort_key f x (concat (map (\<lambda>k. filter (\<lambda>y. f y = k) xs) ks)) =
          concat (map (\<lambda>k. filter (\<lambda>y. f y = k) (x # xs)) ks)"
      using Cons.IH Cons.prems(1,2) mem by simp
    ultimately show ?thesis using False by simp
  qed
qed

lemma sort_key_buckets:
  fixes f :: "'a \<Rightarrow> int"
  assumes "sorted ks" "distinct ks" "\<And>x. f x \<in> set ks"
  shows "sort_key f xs = concat (map (\<lambda>k. filter (\<lambda>y. f y = k) xs) ks)"
proof (induction xs)
  case Nil
  show ?case by (induction ks) simp_all
next
  case (Cons x xs)
  then show ?case
    using insort_key_buckets [where x = x and xs = xs and f = f, OF assms(1,2) assms(3)] by simp
qed

lemma indexOf_order:
  "indexOf order t =
     (if t = lit ''link'' then 0 else if t = lit ''bold'' then 1
      else if t = lit ''italic'' then 2 else if t = lit ''code'' then 3 else - 1)"
  by (simp add: order_def lit_def)

lemma sortMarks_buckets:
  "sortMarks ms =
     filter (\<lambda>m. mtype m \<notin> set order) ms @
     filter (\<lambda>m. mtype m = lit ''link'') ms @ filter (\<lambda>m. mtype m = lit ''bold'') ms @
     filter (\<lambda>m. mtype m = lit ''italic'') ms @ filter (\<lambda>m. mtype m = lit ''code'') ms"
proof -
  let ?f = "\<lambda>m. indexOf order (mtype m)"
  have "sort_key ?f ms = concat (map (\<lambda>k. filter (\<lambda>y. ?f y = k) ms) [- 1, 0, 1, 2, 3])"
    by (rule sort_key_buckets) (simp_all add: indexOf_order)
  moreover have "(\<lambda>m. ?f m = - 1) = (\<lambda>m. mtype m \<notin> set order)"
    by (rule ext) (simp add: indexOf_order, simp add: order_def lit_def)
  moreover have "(\<lambda>m. ?f m = 0) = (\<lambda>m. mtype m = lit ''link'')"
    by (rule ext) (simp add: indexOf_order)
  moreover have "(\<lambda>m. ?f m = 1) = (\<lambda>m. mtype m = lit ''bold'')"
    by (rule ext) (simp add: indexOf_order, simp add: lit_def)
  moreover have "(\<lambda>m. ?f m = 2) = (\<lambda>m. mtype m = lit ''italic'')"
    by (rule ext) (simp add: indexOf_order, simp add: lit_def)
  moreover have "(\<lambda>m. ?f m = 3) = (\<lambda>m. mtype m = lit ''code'')"
    by (rule ext) (simp add: indexOf_order, simp add: lit_def)
  ultimately show ?thesis by (simp add: sortMarks_def)
qed

section \<open>Marks: what the loop emits\<close>

lemma foldl_pushMark:
  "foldl (pushMark env) (ops, cls) ms =
     (ops @ map fst (emitted env ms), rev (map snd (emitted env ms)) @ cls)"
proof (induction ms arbitrary: ops cls)
  case Nil
  show ?case by (simp add: emitted_def)
next
  case (Cons m ms)
  show ?case
  proof (cases "markTags env m")
    case None
    then show ?thesis using Cons.IH [of ops cls] by (simp add: pushMark_def emitted_def)
  next
    case (Some p)
    obtain a b where p: "p = (a, b)" by (cases p)
    show ?thesis
      using Cons.IH [of "ops @ [a]" "b # cls"] Some p by (simp add: pushMark_def emitted_def)
  qed
qed

lemma processText_emitted:
  "processText env (Node (lit ''text'') a c (JStr s) (Some ms)) =
     concat (map fst (emitted env (sortMarks ms))) @ escapeHTML (JStr s) @
     concat (rev (map snd (emitted env (sortMarks ms))))"
  by (cases "ms = []")
     (simp_all add: processText_def foldl_pushMark join_empty_sep sortMarks_def emitted_def Let_def)

lemma emitted_append: "emitted env (xs @ ys) = emitted env xs @ emitted env ys"
  by (simp add: emitted_def)

lemma emitted_filter_drop:
  "markTags env m = None \<Longrightarrow>
   emitted env (filter P (xs @ m # ys)) = emitted env (filter P (xs @ ys))"
  by (simp add: emitted_def)

lemma emitted_sortMarks_drop:
  "markTags env m = None \<Longrightarrow>
   emitted env (sortMarks (xs @ m # ys)) = emitted env (sortMarks (xs @ ys))"
  unfolding sortMarks_buckets emitted_append by (simp only: emitted_filter_drop)

lemma processText_drop_mark:
  assumes "markTags env m = None"
  shows "processText env (Node t a c tx (Some (xs @ m # ys))) =
         processText env (Node t a c tx (Some (xs @ ys)))"
proof (cases "t = lit ''text''")
  case True
  show ?thesis
  proof (cases tx)
    case (JStr s)
    show ?thesis
      unfolding True JStr processText_emitted using assms by (simp only: emitted_sortMarks_drop)
  qed (simp_all add: processText_def)
qed (simp add: processText_def)

lemma validateURL_empty: "\<not> valid (validateURL env (JStr []))"
  by (simp add: validateURL_def)

lemma markTags_unknown:
  "mtype m \<noteq> lit ''bold'' \<Longrightarrow> mtype m \<noteq> lit ''italic'' \<Longrightarrow> mtype m \<noteq> lit ''code'' \<Longrightarrow>
   mtype m \<noteq> lit ''link'' \<Longrightarrow> markTags env m = None"
  by (simp add: markTags_def)

lemma markTags_bad_link:
  assumes "mtype m = lit ''link''"
    and "case mattrs m of None \<Rightarrow> True
         | Some av \<Rightarrow> \<not> truthy (href av) \<or> \<not> valid (validateURL env (href av))"
  shows "markTags env m = None"
proof -
  have ne: "lit ''link'' \<noteq> lit ''bold''" "lit ''link'' \<noteq> lit ''italic''" "lit ''link'' \<noteq> lit ''code''"
    by (simp_all add: lit_def)
  show ?thesis
    using assms ne by (auto simp: markTags_def Let_def validateURL_empty split: option.splits)
qed

lemma filter_unique:
  assumes "distinct ms" "P a" "\<And>x. x \<in> set ms \<Longrightarrow> P x \<Longrightarrow> x = a"
  shows "filter P ms = (if a \<in> set ms then [a] else [])"
  using assms(1,3)
proof (induction ms)
  case Nil
  show ?case by simp
next
  case (Cons x xs)
  have IH: "filter P xs = (if a \<in> set xs then [a] else [])"
    using Cons.IH Cons.prems by simp
  show ?case
  proof (cases "P x")
    case True
    then have "x = a" using Cons.prems(2) by simp
    then show ?thesis using IH Cons.prems(1) True by simp
  next
    case False
    then have "x \<noteq> a" using assms(2) by blast
    then show ?thesis using IH False by simp
  qed
qed

lemma lit_type_neq:
  "lit ''link'' \<noteq> lit ''bold''" "lit ''link'' \<noteq> lit ''italic''" "lit ''link'' \<noteq> lit ''code''"
  "lit ''bold'' \<noteq> lit ''italic''" "lit ''bold'' \<noteq> lit ''code''" "lit ''italic'' \<noteq> lit ''code''"
  by (simp_all add: lit_def)

lemma filter_by_type:
  assumes d: "distinct ms" and sub: "set ms \<subseteq> {L, B, I, C}"
    and ty: "mtype L = lit ''link''" "mtype B = lit ''bold''" "mtype I = lit ''italic''"
            "mtype C = lit ''code''"
    and X: "X = L \<or> X = B \<or> X = I \<or> X = C"
  shows "filter (\<lambda>m. mtype m = mtype X) ms = (if X \<in> set ms then [X] else [])"
proof (rule filter_unique [OF d])
  show "mtype X = mtype X" by simp
next
  fix x assume "x \<in> set ms" and t: "mtype x = mtype X"
  then have "x = L \<or> x = B \<or> x = I \<or> x = C" using sub by blast
  then show "x = X" using t X ty lit_type_neq by metis
qed

lemma processText_canonical:
  assumes L: "L = Mark (lit ''link'') (Some \<lparr>level = lv, href = JStr h\<rparr>)"
    and ok: "valid (validateURL env (JStr h))"
    and B: "mtype B = lit ''bold''" and I: "mtype I = lit ''italic''" and C: "mtype C = lit ''code''"
    and sub: "set ms \<subseteq> {L, B, I, C}" and d: "distinct ms"
  shows \<open>processText env (Node (lit ''text'') a c (JStr s) (Some ms)) =
     (if L \<in> set ms
      then lit ''<a href="'' @ escapeAttribute (JStr (url (validateURL env (JStr h)))) @ lit ''">''
      else []) @
     (if B \<in> set ms then lit ''<strong>'' else []) @
     (if I \<in> set ms then lit ''<em>'' else []) @
     (if C \<in> set ms then lit ''<code>'' else []) @
     escapeHTML (JStr s) @
     (if C \<in> set ms then lit ''</code>'' else []) @
     (if I \<in> set ms then lit ''</em>'' else []) @
     (if B \<in> set ms then lit ''</strong>'' else []) @
     (if L \<in> set ms then lit ''</a>'' else [])\<close>
proof -
  have tL: "mtype L = lit ''link''" using L by simp
  have hne: "h \<noteq> []" using ok validateURL_empty by auto
  have "mtype x \<in> set order" if "x \<in> set ms" for x
  proof -
    have "x = L \<or> x = B \<or> x = I \<or> x = C" using that sub by blast
    then show ?thesis using tL B I C by (auto simp: order_def)
  qed
  then have f0: "filter (\<lambda>m. mtype m \<notin> set order) ms = []"
    by (simp add: filter_empty_conv)
  note fu = filter_by_type [OF d sub tL B I C]
  have f1: "filter (\<lambda>m. mtype m = lit ''link'') ms = (if L \<in> set ms then [L] else [])"
    using fu [of L] tL by simp
  have f2: "filter (\<lambda>m. mtype m = lit ''bold'') ms = (if B \<in> set ms then [B] else [])"
    using fu [of B] B by simp
  have f3: "filter (\<lambda>m. mtype m = lit ''italic'') ms = (if I \<in> set ms then [I] else [])"
    using fu [of I] I by simp
  have f4: "filter (\<lambda>m. mtype m = lit ''code'') ms = (if C \<in> set ms then [C] else [])"
    using fu [of C] C by simp
  have mL: \<open>markTags env L =
      Some (lit ''<a href="'' @ escapeAttribute (JStr (url (validateURL env (JStr h)))) @ lit ''">'',
        lit ''</a>'')\<close>
    using ok hne lit_type_neq by (simp add: markTags_def L Let_def)
  have mB: "markTags env B = Some (lit ''<strong>'', lit ''</strong>'')"
    using B by (simp add: markTags_def)
  have mI: "markTags env I = Some (lit ''<em>'', lit ''</em>'')"
    using I lit_type_neq by (simp add: markTags_def)
  have mC: "markTags env C = Some (lit ''<code>'', lit ''</code>'')"
    using C lit_type_neq by (simp add: markTags_def)
  have "emitted env (sortMarks ms) =
      (if L \<in> set ms then emitted env [L] else []) @ (if B \<in> set ms then emitted env [B] else []) @
      (if I \<in> set ms then emitted env [I] else []) @ (if C \<in> set ms then emitted env [C] else [])"
    unfolding sortMarks_buckets f0 f1 f2 f3 f4 emitted_append by (simp add: emitted_def)
  then show ?thesis
    unfolding processText_emitted by (simp add: emitted_def mL mB mI mC)
qed

section \<open>Marks: the claims\<close>

text \<open>
  C5 as stated: a mark whose type is not in \<^verbatim>\<open>order\<close> sorts after all listed marks.
  \<^verbatim>\<open>order.indexOf\<close> gives such a mark the key \<open>-1\<close>, below every listed key: here the
  unlisted mark comes after the listed one in the input and before it in the result.
\<close>

theorem sortMarks_unlisted_counterexample:
  "mtype (Mark (lit ''bold'') None) \<in> set order \<and>
   mtype (Mark (lit ''underline'') None) \<notin> set order \<and>
   sortMarks [Mark (lit ''bold'') None, Mark (lit ''underline'') None] =
     [Mark (lit ''underline'') None, Mark (lit ''bold'') None]"
  by (simp add: sortMarks_def order_def lit_def)

text \<open>
  C5, amended: when the marks of a text node are sorted, every mark whose type is not in
  the list link, bold, italic, code sorts before all listed marks, the marks not in the
  list keep their relative order, and the listed marks follow in the order link, bold,
  italic, code, those of one type in their relative order.
\<close>

theorem sortMarks_unlisted_first:
  "sortMarks ms =
     filter (\<lambda>m. mtype m \<notin> set order) ms @ sortMarks (filter (\<lambda>m. mtype m \<in> set order) ms) \<and>
   sortMarks (filter (\<lambda>m. mtype m \<in> set order) ms) =
     filter (\<lambda>m. mtype m = lit ''link'') ms @ filter (\<lambda>m. mtype m = lit ''bold'') ms @
     filter (\<lambda>m. mtype m = lit ''italic'') ms @ filter (\<lambda>m. mtype m = lit ''code'') ms"
proof -
  have mem: "lit ''link'' \<in> set order" "lit ''bold'' \<in> set order" "lit ''italic'' \<in> set order"
    "lit ''code'' \<in> set order"
    by (simp_all add: order_def)
  have "filter (\<lambda>m. mtype m = t) (filter (\<lambda>m. mtype m \<in> set order) ms) =
        filter (\<lambda>m. mtype m = t) ms" if "t \<in> set order" for t
    using that by (induction ms) auto
  then have listed: "sortMarks (filter (\<lambda>m. mtype m \<in> set order) ms) =
     filter (\<lambda>m. mtype m = lit ''link'') ms @ filter (\<lambda>m. mtype m = lit ''bold'') ms @
     filter (\<lambda>m. mtype m = lit ''italic'') ms @ filter (\<lambda>m. mtype m = lit ''code'') ms"
    unfolding sortMarks_buckets [of "filter (\<lambda>m. mtype m \<in> set order) ms"] using mem by simp
  show ?thesis
    using listed sortMarks_buckets [of ms] by simp
qed

theorem sortMarks_unlisted_first_witness:
  "sortMarks [Mark (lit ''code'') None, Mark (lit ''underline'') None, Mark (lit ''link'') None,
              Mark (lit ''strike'') None] =
     [Mark (lit ''underline'') None, Mark (lit ''strike'') None, Mark (lit ''link'') None,
      Mark (lit ''code'') None]"
  using sortMarks_unlisted_first
    [of "[Mark (lit ''code'') None, Mark (lit ''underline'') None, Mark (lit ''link'') None,
          Mark (lit ''strike'') None]"]
  by (simp add: order_def lit_def)

text \<open>
  C10: a mark whose type is none of bold, italic, code, link contributes no tag: a text
  node renders as the same node with that mark removed.
\<close>

theorem processText_unknown_mark:
  assumes "mtype m \<noteq> lit ''bold''" "mtype m \<noteq> lit ''italic''" "mtype m \<noteq> lit ''code''"
    "mtype m \<noteq> lit ''link''"
  shows "processText env (Node (lit ''text'') a c tx (Some (xs @ m # ys))) =
         processText env (Node (lit ''text'') a c tx (Some (xs @ ys)))"
  using assms by (intro processText_drop_mark markTags_unknown)

theorem processText_unknown_mark_witness:
  "processText sample_env (Node (lit ''text'') None None (JStr (lit ''a<b''))
     (Some ([Mark (lit ''bold'') None] @ Mark (lit ''underline'') None # [Mark (lit ''code'') None]))) =
   processText sample_env (Node (lit ''text'') None None (JStr (lit ''a<b''))
     (Some ([Mark (lit ''bold'') None] @ [Mark (lit ''code'') None])))"
  by (rule processText_unknown_mark) (simp_all add: lit_def)

text \<open>
  C3: a link mark whose \<^verbatim>\<open>attrs\<close> or \<^verbatim>\<open>attrs.href\<close> is missing, or whose href
  \<^verbatim>\<open>validateURL\<close> rejects, yields no anchor: the node renders as the same node without
  that mark (the escaped text inside the tags of the other marks), and as the bare
  escaped text when the link is its only mark.
\<close>

theorem processText_rejected_link:
  assumes "mtype m = lit ''link''"
    and "mattrs m = None \<or>
         (\<exists>av. mattrs m = Some av \<and> (href av = JUndefined \<or> \<not> valid (validateURL env (href av))))"
  shows "processText env (Node (lit ''text'') a c tx (Some (xs @ m # ys))) =
           processText env (Node (lit ''text'') a c tx (Some (xs @ ys))) \<and>
         processText env (Node (lit ''text'') a c (JStr s) (Some [m])) = escapeHTML (JStr s)"
proof -
  have "case mattrs m of None \<Rightarrow> True
        | Some av \<Rightarrow> \<not> truthy (href av) \<or> \<not> valid (validateURL env (href av))"
    using assms(2) by (auto split: option.splits)
  then have none: "markTags env m = None"
    using assms(1) by (rule markTags_bad_link [rotated])
  have "processText env (Node (lit ''text'') a c (JStr s) (Some ([] @ m # []))) =
        processText env (Node (lit ''text'') a c (JStr s) (Some ([] @ [])))"
    using none by (rule processText_drop_mark)
  then have "processText env (Node (lit ''text'') a c (JStr s) (Some [m])) = escapeHTML (JStr s)"
    by (simp add: processText_def)
  then show ?thesis
    using processText_drop_mark [OF none] by simp
qed

theorem processText_rejected_link_witness:
  "processText sample_env (Node (lit ''text'') None None (JStr (lit ''a&b''))
     (Some ([Mark (lit ''bold'') None] @
            Mark (lit ''link'') (Some \<lparr>level = JUndefined, href = JStr (lit ''javascript:alert(1)'')\<rparr>) # []))) =
     lit ''<strong>a&amp;b</strong>'' \<and>
   processText sample_env (Node (lit ''text'') None None (JStr (lit ''a&b''))
     (Some [Mark (lit ''link'') (Some \<lparr>level = JUndefined, href = JStr (lit ''javascript:alert(1)'')\<rparr>)])) =
     lit ''a&amp;b''"
proof -
  let ?m = "Mark (lit ''link'') (Some \<lparr>level = JUndefined, href = JStr (lit ''javascript:alert(1)'')\<rparr>)"
  have rej: "\<not> valid (validateURL sample_env (JStr (lit ''javascript:alert(1)'')))"
    by (simp add: validateURL_def sample_env_def trim_def isWhitespace_def lit_def)
  have h: "mattrs ?m = None \<or>
         (\<exists>av. mattrs ?m = Some av \<and> (href av = JUndefined \<or> \<not> valid (validateURL sample_env (href av))))"
    using rej by simp
  have plain: "processText sample_env (Node (lit ''text'') None None (JStr (lit ''a&b''))
      (Some ([Mark (lit ''bold'') None] @ []))) = lit ''<strong>a&amp;b</strong>''"
    by (simp add: processText_def sortMarks_def pushMark_def markTags_def escapeHTML_def
        escapeChar_def htmlEntities_def HTML_ENTITY_MAP_def lit_def)
  have esc: "escapeHTML (JStr (lit ''a&b'')) = lit ''a&amp;b''"
    by (simp add: escapeHTML_def escapeChar_def htmlEntities_def HTML_ENTITY_MAP_def lit_def)
  show ?thesis
    using processText_rejected_link [of ?m sample_env None None "JStr (lit ''a&b'')"
        "[Mark (lit ''bold'') None]" "[]" "lit ''a&b''", OF _ h] plain esc
    by simp
qed

lemma processText_canonical_perm:
  assumes L: "L = Mark (lit ''link'') (Some \<lparr>level = lv, href = JStr h\<rparr>)"
    and ok: "valid (validateURL env (JStr h))"
    and B: "mtype B = lit ''bold''" and I: "mtype I = lit ''italic''" and C: "mtype C = lit ''code''"
    and sub: "set ms \<subseteq> {L, B, I, C}" and d: "distinct ms"
    and p: "mset ms' = mset ms"
  shows "processText env (Node (lit ''text'') a c (JStr s) (Some ms')) =
         processText env (Node (lit ''text'') a c (JStr s) (Some ms))"
proof -
  have s: "set ms' = set ms" using p by (rule mset_eq_setD)
  have d': "distinct ms'" using mset_eq_imp_distinct_iff [OF p] d by simp
  have sub': "set ms' \<subseteq> {L, B, I, C}" using s sub by simp
  show ?thesis
    unfolding processText_canonical [OF L ok B I C sub' d'] processText_canonical [OF L ok B I C sub d] s
    by (rule refl)
qed

text \<open>
  C4: for a text node whose marks are a permutation of a subset of link, bold, italic,
  code (the link's href accepted by \<^verbatim>\<open>validateURL\<close>), the opening tags stand in the order
  link, bold, italic, code, restricted to the marks present, and the closing tags in the
  reverse order; every permutation of the marks renders the same.
\<close>

theorem processText_mark_order:
  assumes "L = Mark (lit ''link'') (Some \<lparr>level = lv, href = JStr h\<rparr>)"
    and "valid (validateURL env (JStr h))"
    and "mtype B = lit ''bold''" and "mtype I = lit ''italic''" and "mtype C = lit ''code''"
    and "set ms \<subseteq> {L, B, I, C}" and "distinct ms"
  shows \<open>processText env (Node (lit ''text'') a c (JStr s) (Some ms)) =
     (if L \<in> set ms
      then lit ''<a href="'' @ escapeAttribute (JStr (url (validateURL env (JStr h)))) @ lit ''">''
      else []) @
     (if B \<in> set ms then lit ''<strong>'' else []) @
     (if I \<in> set ms then lit ''<em>'' else []) @
     (if C \<in> set ms then lit ''<code>'' else []) @
     escapeHTML (JStr s) @
     (if C \<in> set ms then lit ''</code>'' else []) @
     (if I \<in> set ms then lit ''</em>'' else []) @
     (if B \<in> set ms then lit ''</strong>'' else []) @
     (if L \<in> set ms then lit ''</a>'' else []) \<and>
     (\<forall>ms'. mset ms' = mset ms \<longrightarrow>
        processText env (Node (lit ''text'') a c (JStr s) (Some ms')) =
        processText env (Node (lit ''text'') a c (JStr s) (Some ms)))\<close>
proof (intro conjI allI impI)
  fix ms' :: "mark list" assume "mset ms' = mset ms"
  then show "processText env (Node (lit ''text'') a c (JStr s) (Some ms')) =
        processText env (Node (lit ''text'') a c (JStr s) (Some ms))"
    by (rule processText_canonical_perm [OF assms])
qed (rule processText_canonical [OF assms])

theorem processText_mark_order_witness:
  \<open>processText sample_env (Node (lit ''text'') None None (JStr (lit ''a<b''))
     (Some [Mark (lit ''code'') None,
            Mark (lit ''link'') (Some \<lparr>level = JUndefined, href = JStr (lit ''https://x.com/?q="1"'')\<rparr>),
            Mark (lit ''bold'') None])) =
     lit ''<a href="https://x.com/?q=&quot;1&quot;"><strong><code>a&lt;b</code></strong></a>'' \<and>
   processText sample_env (Node (lit ''text'') None None (JStr (lit ''a<b''))
     (Some [Mark (lit ''bold'') None, Mark (lit ''code'') None,
            Mark (lit ''link'') (Some \<lparr>level = JUndefined, href = JStr (lit ''https://x.com/?q="1"'')\<rparr>)])) =
     lit ''<a href="https://x.com/?q=&quot;1&quot;"><strong><code>a&lt;b</code></strong></a>''\<close>
proof -
  let ?h = \<open>lit ''https://x.com/?q="1"''\<close>
  let ?L = "Mark (lit ''link'') (Some \<lparr>level = JUndefined, href = JStr ?h\<rparr>)"
  let ?B = "Mark (lit ''bold'') None"
  let ?I = "Mark (lit ''italic'') None"
  let ?C = "Mark (lit ''code'') None"
  let ?ms = "[?C, ?L, ?B]"
  have v: "validateURL sample_env (JStr ?h) = \<lparr>valid = True, url = ?h, error = None\<rparr>"
    by (simp add: validateURL_def sample_env_def trim_def isWhitespace_def lit_def)
  then have ok: "valid (validateURL sample_env (JStr ?h))" by simp
  have sub: "set ?ms \<subseteq> {?L, ?B, ?I, ?C}" by simp
  have d: "distinct ?ms" by (simp add: lit_def)
  have mem: "?L \<in> set ?ms" "?B \<in> set ?ms" "?I \<notin> set ?ms" "?C \<in> set ?ms"
    by (simp_all add: lit_def)
  have att: \<open>escapeAttribute (JStr ?h) = lit ''https://x.com/?q=&quot;1&quot;''\<close>
    by (simp add: escapeAttribute_def replaceAll_def lit_def)
  have esc: "escapeHTML (JStr (lit ''a<b'')) = lit ''a&lt;b''"
    by (simp add: escapeHTML_def escapeChar_def htmlEntities_def HTML_ENTITY_MAP_def lit_def)
  have types: "mtype ?B = lit ''bold''" "mtype ?I = lit ''italic''" "mtype ?C = lit ''code''"
    by simp_all
  note inst = processText_mark_order [where L = "?L" and lv = JUndefined and h = "?h"
      and env = sample_env and B = "?B" and I = "?I" and C = "?C" and ms = "?ms" and a = None
      and c = None and s = "lit ''a<b''", OF refl ok types sub d]
  have one: \<open>processText sample_env (Node (lit ''text'') None None (JStr (lit ''a<b'')) (Some ?ms)) =
      lit ''<a href="https://x.com/?q=&quot;1&quot;"><strong><code>a&lt;b</code></strong></a>''\<close>
    using inst [THEN conjunct1] mem v att esc by (simp add: lit_def)
  have p: "mset [?B, ?C, ?L] = mset ?ms" by simp
  have two: "processText sample_env (Node (lit ''text'') None None (JStr (lit ''a<b'')) (Some [?B, ?C, ?L])) =
      processText sample_env (Node (lit ''text'') None None (JStr (lit ''a<b'')) (Some ?ms))"
    using inst [THEN conjunct2, THEN spec, THEN mp, OF p] .
  show ?thesis using one two by simp
qed

section \<open>validateURL: the claims\<close>

lemma trim_javascript: "trim (lit ''javascript:alert(1)'') = lit ''javascript:alert(1)''"
  by (simp add: trim_def isWhitespace_def lit_def)

lemma trim_ftp: "trim (lit ''ftp://x.com'') = lit ''ftp://x.com''"
  by (simp add: trim_def isWhitespace_def lit_def)

lemma msg_nonempty:
  "lit ''URL is required'' \<noteq> []" "lit ''Invalid URL protocol'' \<noteq> []"
  "lit ''Only HTTP, HTTPS, and mailto links are allowed'' \<noteq> []" "lit ''Invalid URL format'' \<noteq> []"
  by (simp_all add: lit_def)

lemma validateURL_required:
  assumes "(\<forall>s. v \<noteq> JStr s) \<or> v = JStr []"
  shows "validateURL env v = \<lparr>valid = False, url = [], error = Some (lit ''URL is required'')\<rparr>"
  using assms by (cases v) (simp_all add: validateURL_def)

lemma validateURL_blocked:
  assumes "startsWith (toLowerCase env (trim s)) (lit ''javascript:'') \<or>
           startsWith (toLowerCase env (trim s)) (lit ''data:'') \<or>
           startsWith (toLowerCase env (trim s)) (lit ''vbscript:'')"
  shows "rejected (validateURL env (JStr s))"
  using assms msg_nonempty by (auto simp: validateURL_def rejected_def Let_def)

lemma validateURL_scheme:
  assumes "URL env (trim s) = Some p"
    and "protocol p \<noteq> lit ''http:''" "protocol p \<noteq> lit ''https:''" "protocol p \<noteq> lit ''mailto:''"
  shows "rejected (validateURL env (JStr s))"
  using assms msg_nonempty by (auto simp: validateURL_def rejected_def Let_def)

lemma validateURL_ftp:
  assumes "\<forall>p. URL env (lit ''ftp://x.com'') = Some p \<longrightarrow> protocol p = lit ''ftp:''"
  shows "rejected (validateURL env (JStr (lit ''ftp://x.com'')))"
proof (cases "URL env (lit ''ftp://x.com'')")
  case None
  have "includesStr (lit ''ftp://x.com'') (lit ''://'')" by (simp add: lit_def)
  then show ?thesis
    using None msg_nonempty by (auto simp: validateURL_def rejected_def Let_def trim_ftp)
next
  case (Some p)
  then have "protocol p = lit ''ftp:''" using assms by simp
  moreover have "lit ''ftp:'' \<noteq> lit ''http:''" "lit ''ftp:'' \<noteq> lit ''https:''" "lit ''ftp:'' \<noteq> lit ''mailto:''"
    by (simp_all add: lit_def)
  ultimately show ?thesis
    using Some by (intro validateURL_scheme [where p = p]) (simp_all add: trim_ftp)
qed

text \<open>
  C2: \<^verbatim>\<open>validateURL\<close> returns \<^verbatim>\<open>valid: false\<close> with the empty url and a non-empty error
  for an input that is not a string or is empty, for an input whose trimmed, lower-cased
  text begins with \<^verbatim>\<open>javascript:\<close>, \<^verbatim>\<open>data:\<close> or \<^verbatim>\<open>vbscript:\<close>, and for an input that
  parses with a protocol other than \<^verbatim>\<open>http:\<close>, \<^verbatim>\<open>https:\<close>, \<^verbatim>\<open>mailto:\<close>; so for
  \<^verbatim>\<open>javascript:alert(1)\<close> (which lower-casing leaves as it is) and for \<^verbatim>\<open>ftp://x.com\<close>
  (whose protocol a parser can only report as \<^verbatim>\<open>ftp:\<close>).
\<close>

theorem validateURL_rejects:
  "(((\<forall>s. v \<noteq> JStr s) \<or> v = JStr []) \<longrightarrow>
      validateURL env v = \<lparr>valid = False, url = [], error = Some (lit ''URL is required'')\<rparr>) \<and>
   (startsWith (toLowerCase env (trim s)) (lit ''javascript:'') \<or>
    startsWith (toLowerCase env (trim s)) (lit ''data:'') \<or>
    startsWith (toLowerCase env (trim s)) (lit ''vbscript:'') \<longrightarrow>
      rejected (validateURL env (JStr s))) \<and>
   ((\<exists>p. URL env (trim s) = Some p \<and> protocol p \<noteq> lit ''http:'' \<and> protocol p \<noteq> lit ''https:'' \<and>
         protocol p \<noteq> lit ''mailto:'') \<longrightarrow>
      rejected (validateURL env (JStr s))) \<and>
   (toLowerCase env (lit ''javascript:alert(1)'') = lit ''javascript:alert(1)'' \<longrightarrow>
      rejected (validateURL env (JStr (lit ''javascript:alert(1)'')))) \<and>
   ((\<forall>p. URL env (lit ''ftp://x.com'') = Some p \<longrightarrow> protocol p = lit ''ftp:'') \<longrightarrow>
      rejected (validateURL env (JStr (lit ''ftp://x.com''))))"
proof (intro conjI impI)
  assume "toLowerCase env (lit ''javascript:alert(1)'') = lit ''javascript:alert(1)''"
  then have "startsWith (toLowerCase env (trim (lit ''javascript:alert(1)''))) (lit ''javascript:'')"
    by (simp add: trim_javascript) (simp add: lit_def)
  then show "rejected (validateURL env (JStr (lit ''javascript:alert(1)'')))"
    by (intro validateURL_blocked) simp
qed (auto intro: validateURL_required validateURL_blocked validateURL_scheme validateURL_ftp)

theorem validateURL_rejects_witness:
  "validateURL sample_env JNull = \<lparr>valid = False, url = [], error = Some (lit ''URL is required'')\<rparr> \<and>
   validateURL sample_env (JStr []) = \<lparr>valid = False, url = [], error = Some (lit ''URL is required'')\<rparr> \<and>
   rejected (validateURL sample_env (JStr (lit '' JavaScript:alert(1)''))) \<and>
   rejected (validateURL sample_env (JStr (lit ''ftp://x.com/a b''))) \<and>
   rejected (validateURL sample_env (JStr (lit ''javascript:alert(1)''))) \<and>
   rejected (validateURL sample_env (JStr (lit ''ftp://x.com'')))"
proof -
  have 1: "(\<forall>s. JNull \<noteq> JStr s) \<or> JNull = JStr []" by simp
  have 2: "startsWith (toLowerCase sample_env (trim (lit '' JavaScript:alert(1)''))) (lit ''javascript:'')"
    by (simp add: sample_env_def trim_def isWhitespace_def lit_def)
  have 3: "\<exists>p. URL sample_env (trim (lit ''ftp://x.com/a b'')) = Some p \<and> protocol p \<noteq> lit ''http:'' \<and>
      protocol p \<noteq> lit ''https:'' \<and> protocol p \<noteq> lit ''mailto:''"
    by (simp add: sample_env_def trim_def isWhitespace_def lit_def)
  have 4: "toLowerCase sample_env (lit ''javascript:alert(1)'') = lit ''javascript:alert(1)''"
    by (simp add: sample_env_def lit_def)
  have 5: "\<forall>p. URL sample_env (lit ''ftp://x.com'') = Some p \<longrightarrow> protocol p = lit ''ftp:''"
    by (simp add: sample_env_def lit_def)
  show ?thesis
    using validateURL_rejects [of JNull sample_env "lit '' JavaScript:alert(1)''"] 1 2
      validateURL_rejects [of "JStr []" sample_env "lit ''ftp://x.com/a b''"] 3
      validateURL_rejects [of JNull sample_env "[]"] 4 5
    by blast
qed

section \<open>Block nodes: empty content\<close>

lemma trim_empty_iff: "trim s = [] \<longleftrightarrow> (\<forall>c \<in> set s. isWhitespace c)"
proof -
  have "trim s = [] \<longleftrightarrow> (\<forall>c \<in> set (dropWhile isWhitespace s). isWhitespace c)"
    by (simp add: trim_def)
  also have "\<dots> \<longleftrightarrow> dropWhile isWhitespace s = []"
  proof
    assume a: "\<forall>c \<in> set (dropWhile isWhitespace s). isWhitespace c"
    show "dropWhile isWhitespace s = []"
    proof (rule ccontr)
      assume "dropWhile isWhitespace s \<noteq> []"
      then have "\<not> isWhitespace (hd (dropWhile isWhitespace s))" by (rule hd_dropWhile)
      moreover have "hd (dropWhile isWhitespace s) \<in> set (dropWhile isWhitespace s)"
        using \<open>dropWhile isWhitespace s \<noteq> []\<close> by simp
      ultimately show False using a by blast
    qed
  next
    assume e: "dropWhile isWhitespace s = []"
    show "\<forall>c \<in> set (dropWhile isWhitespace s). isWhitespace c" unfolding e by simp
  qed
  also have "\<dots> \<longleftrightarrow> (\<forall>c \<in> set s. isWhitespace c)"
    by simp
  finally show ?thesis .
qed













section \<open>Statistics: splitting into words\<close>

lemma spec_tokens_all_ws: "(\<And>c. c \<in> set a \<Longrightarrow> isWhitespace c) \<Longrightarrow> spec_tokens (a @ x) = spec_tokens x"
  by (induction a) simp_all

lemma spec_tokens_dropWhile: "spec_tokens (dropWhile isWhitespace s) = spec_tokens s"
  by (induction s) simp_all

lemma spec_tokens_ws_only: "(\<And>c. c \<in> set a \<Longrightarrow> isWhitespace c) \<Longrightarrow> spec_tokens a = []"
  using spec_tokens_all_ws [of a "[]"] by simp

lemma spec_tokens_trailing_ws:
  assumes "\<And>c. c \<in> set b \<Longrightarrow> isWhitespace c"
  shows "spec_tokens (x @ b) = spec_tokens x"
proof (induction x rule: spec_tokens.induct)
  case 1
  show ?case using assms by (simp add: spec_tokens_ws_only)
next
  case (2 c cs)
  show ?case
  proof (cases "isWhitespace c")
    case True
    then show ?thesis using 2 by simp
  next
    case False
    have tb: "takeWhile (\<lambda>x. \<not> isWhitespace x) b = []"
      using assms by (cases b) simp_all
    have db: "dropWhile (\<lambda>x. \<not> isWhitespace x) b = b"
      using assms by (cases b) simp_all
    show ?thesis
    proof (cases "\<forall>x \<in> set cs. \<not> isWhitespace x")
      case True
      then have dc: "dropWhile (\<lambda>x. \<not> isWhitespace x) cs = []"
        and tc: "takeWhile (\<lambda>x. \<not> isWhitespace x) cs = cs"
        by simp_all
      have "spec_tokens b = []" using assms by (rule spec_tokens_ws_only)
      then show ?thesis
        using False True
        by (simp add: takeWhile_append dropWhile_append tb db dc tc)
    next
      case nall: False
      then obtain x where x: "x \<in> set cs" "\<not> \<not> isWhitespace x" by blast
      have "takeWhile (\<lambda>x. \<not> isWhitespace x) (cs @ b) = takeWhile (\<lambda>x. \<not> isWhitespace x) cs"
        using x by (rule takeWhile_append1)
      moreover have "dropWhile (\<lambda>x. \<not> isWhitespace x) (cs @ b) =
          dropWhile (\<lambda>x. \<not> isWhitespace x) cs @ b"
        using x by (rule dropWhile_append1)
      ultimately show ?thesis
        using False 2(2) [OF False] by simp
    qed
  qed
qed

lemma trim_decompose:
  "\<exists>a b. s = a @ trim s @ b \<and> (\<forall>c \<in> set a. isWhitespace c) \<and> (\<forall>c \<in> set b. isWhitespace c)"
proof -
  let ?d = "dropWhile isWhitespace s"
  have "trim s @ rev (takeWhile isWhitespace (rev ?d)) =
        rev (takeWhile isWhitespace (rev ?d) @ dropWhile isWhitespace (rev ?d))"
    by (simp only: trim_def rev_append)
  also have "\<dots> = rev (rev ?d)" by (simp only: takeWhile_dropWhile_id)
  finally have d: "?d = trim s @ rev (takeWhile isWhitespace (rev ?d))" by simp
  have "s = takeWhile isWhitespace s @ ?d" by simp
  then have "s = takeWhile isWhitespace s @ trim s @ rev (takeWhile isWhitespace (rev ?d))"
    using d by simp
  moreover have "\<forall>c \<in> set (takeWhile isWhitespace s). isWhitespace c"
    by (auto dest: set_takeWhileD)
  moreover have "\<forall>c \<in> set (rev (takeWhile isWhitespace (rev ?d))). isWhitespace c"
    by (auto dest: set_takeWhileD)
  ultimately show ?thesis by blast
qed

lemma spec_tokens_trim: "spec_tokens (trim s) = spec_tokens s"
proof -
  obtain a b where s: "s = a @ trim s @ b" and a: "\<forall>c \<in> set a. isWhitespace c"
    and b: "\<forall>c \<in> set b. isWhitespace c"
    using trim_decompose by blast
  have "spec_tokens s = spec_tokens (a @ trim s @ b)" using s by simp
  also have "\<dots> = spec_tokens (trim s @ b)" using a by (intro spec_tokens_all_ws) simp
  also have "\<dots> = spec_tokens (trim s)" using b by (intro spec_tokens_trailing_ws) simp
  finally show ?thesis by simp
qed

lemma splitRuns_tokens:
  "filter (\<lambda>w. w \<noteq> []) (splitRuns cur s) =
     (let w = cur @ takeWhile (\<lambda>x. \<not> isWhitespace x) s in (if w = [] then [] else [w])) @
     spec_tokens (dropWhile (\<lambda>x. \<not> isWhitespace x) s)"
proof (induction cur s rule: splitRuns.induct)
  case (1 cur)
  show ?case by simp
next
  case (2 cur c cs)
  show ?case
  proof (cases "isWhitespace c")
    case True
    let ?r = "dropWhile isWhitespace cs"
    have "spec_tokens cs = spec_tokens ?r" by (simp add: spec_tokens_dropWhile)
    also have "\<dots> = (let w = takeWhile (\<lambda>x. \<not> isWhitespace x) ?r in (if w = [] then [] else [w])) @
        spec_tokens (dropWhile (\<lambda>x. \<not> isWhitespace x) ?r)"
    proof (cases ?r)
      case Nil
      show ?thesis unfolding Nil by simp
    next
      case (Cons d ds)
      then have "\<not> isWhitespace d" using hd_dropWhile [of isWhitespace cs] by simp
      then show ?thesis using Cons by (simp add: Let_def)
    qed
    finally show ?thesis using True 2(1) [OF True] by (simp add: Let_def)
  next
    case False
    then show ?thesis using 2(2) [OF False] by (simp add: Let_def)
  qed
qed

lemma split_WORD_SPLIT_tokens:
  "filter (\<lambda>w. w \<noteq> []) (split_WORD_SPLIT s) = spec_tokens s"
proof -
  have "spec_tokens s =
     (let w = takeWhile (\<lambda>x. \<not> isWhitespace x) s in (if w = [] then [] else [w])) @
     spec_tokens (dropWhile (\<lambda>x. \<not> isWhitespace x) s)"
  proof (cases s)
    case Nil
    then show ?thesis by simp
  next
    case (Cons c cs)
    then show ?thesis by (cases "isWhitespace c") (simp_all add: Let_def)
  qed
  then show ?thesis
    using splitRuns_tokens [of "[]" s] by (simp add: split_WORD_SPLIT_def)
qed

section \<open>Statistics: the word count\<close>

lemma cjk_not_whitespace: "cjk c \<Longrightarrow> \<not> isWhitespace c"
  unfolding cjk_def isWhitespace_def word_le_nat_alt word_unat_eq_iff by auto

lemma cjk_not_zeroWidth: "cjk c \<Longrightarrow> \<not> zeroWidth c"
  unfolding cjk_def zeroWidth_def word_le_nat_alt word_unat_eq_iff by auto

lemma takeWhile_short: "length (takeWhile P s) < length s \<longleftrightarrow> (\<exists>c \<in> set s. \<not> P c)"
  by (induction s) auto

lemma regexTest_initial:
  "regexTest cls 0 s =
     (if \<exists>c \<in> set s. cls c then (True, Suc (length (takeWhile (\<lambda>c. \<not> cls c) s))) else (False, 0))"
  using takeWhile_short [of "\<lambda>c. \<not> cls c" s] by (simp add: regexTest_def Let_def)

lemma calculateWordCount_initial:
  "calculateWordCount 0 t =
     (if \<exists>c \<in> set t. cjk c
      then length (filter cjk t) + length (spec_tokens (map (\<lambda>c. if cjk c then 0x20 else c) t))
      else length (spec_tokens t), 0)"
proof (cases "t = []")
  case True
  then show ?thesis by (simp add: calculateWordCount_def)
next
  case False
  then show ?thesis
    by (simp add: calculateWordCount_def containsCJK_def countCJK_def regexTest_initial
        split_WORD_SPLIT_tokens)
qed

lemma filter_cjk_normalize: "filter cjk (normalizeText (JStr s)) = filter cjk s"
  by (induction s) (auto simp: normalizeText_def dest: cjk_not_zeroWidth)

lemma filter_cjk_trim: "filter cjk (trim s) = filter cjk s"
proof -
  obtain a b where s: "s = a @ trim s @ b" and a: "\<forall>c \<in> set a. isWhitespace c"
    and b: "\<forall>c \<in> set b. isWhitespace c"
    using trim_decompose by blast
  have "filter cjk a = []" "filter cjk b = []"
    using a b cjk_not_whitespace by (auto simp: filter_empty_conv)
  then have "filter cjk (a @ trim s @ b) = filter cjk (trim s)" by simp
  then show ?thesis using s by simp
qed

lemma spec_tokens_western_trim:
  "spec_tokens (map (\<lambda>c. if cjk c then 0x20 else c) (trim s)) =
   spec_tokens (map (\<lambda>c. if cjk c then 0x20 else c) s)"
proof -
  let ?r = "\<lambda>c. if cjk c then 0x20 else c"
  obtain a b where s: "s = a @ trim s @ b" and a: "\<forall>c \<in> set a. isWhitespace c"
    and b: "\<forall>c \<in> set b. isWhitespace c"
    using trim_decompose by blast
  have ra: "\<And>c. c \<in> set (map ?r a) \<Longrightarrow> isWhitespace c"
    and rb: "\<And>c. c \<in> set (map ?r b) \<Longrightarrow> isWhitespace c"
    using a b by (auto simp: isWhitespace_def)
  have "map ?r s = map ?r a @ map ?r (trim s) @ map ?r b"
    using s by (metis map_append)
  then have "spec_tokens (map ?r s) = spec_tokens (map ?r a @ map ?r (trim s) @ map ?r b)" by simp
  also have "\<dots> = spec_tokens (map ?r (trim s) @ map ?r b)" using ra by (rule spec_tokens_all_ws)
  also have "\<dots> = spec_tokens (map ?r (trim s))" using rb by (rule spec_tokens_trailing_ws)
  finally show ?thesis by simp
qed

lemma ex_cjk_filter: "(\<exists>c \<in> set s. cjk c) \<longleftrightarrow> filter cjk s \<noteq> []"
  by (simp add: filter_empty_conv)

lemma calculateStats_words:
  "calculateStats 0 (JStr s) =
     (let t = trim (normalizeText (JStr s));
          w = (if \<exists>c \<in> set s. cjk c
               then length (filter cjk s) +
                    length (spec_tokens (map (\<lambda>c. if cjk c then 0x20 else c) (normalizeText (JStr s))))
               else length (spec_tokens (normalizeText (JStr s))))
      in (\<lparr>words = w, characters = length (filter (\<lambda>c. \<not> isWhitespace c) t),
           readingTimeMinutes = nat \<lceil>(of_nat w :: rat) / of_nat WORDS_PER_MINUTE\<rceil>\<rparr>, 0))"
proof -
  let ?n = "normalizeText (JStr s)"
  let ?t = "trim ?n"
  have cj: "filter cjk ?t = filter cjk s"
    by (simp add: filter_cjk_trim filter_cjk_normalize)
  have ex: "(\<exists>c \<in> set ?t. cjk c) \<longleftrightarrow> (\<exists>c \<in> set s. cjk c)"
    unfolding ex_cjk_filter cj ..
  show ?thesis
  proof (cases "?t = []")
    case True
    then have nocjk: "\<not> (\<exists>c \<in> set s. cjk c)" using ex by simp
    have "spec_tokens ?n = spec_tokens ?t" by (simp add: spec_tokens_trim)
    then have "spec_tokens ?n = []" using True by simp
    moreover have "s = [] \<Longrightarrow> ?n = []" by (simp add: normalizeText_def)
    ultimately show ?thesis
      using True nocjk by (simp add: calculateStats_def Let_def)
  next
    case False
    then have "s \<noteq> []" by (auto simp: normalizeText_def trim_def)
    then show ?thesis
      using False
      by (simp add: calculateStats_def Let_def calculateWordCount_initial ex cj
          spec_tokens_western_trim spec_tokens_trim)
  qed
qed

section \<open>Statistics: the claims\<close>

text \<open>A text of \<open>n + 1\<close> words: \<open>n\<close> times \<^verbatim>\<open>a\<close> and a space, then \<^verbatim>\<open>a\<close>.\<close>

lemma set_concat_replicate: "set (concat (replicate n x)) \<subseteq> set x"
  by (induction n) simp_all

lemma repeated_chars:
  assumes "c \<in> set (concat (replicate n (lit ''a '')) @ lit ''a'')"
  shows "c = 0x61 \<or> c = 0x20"
proof -
  have "c \<in> set (lit ''a '') \<union> set (lit ''a'')"
    using assms set_concat_replicate [of n "lit ''a ''"] by auto
  then show ?thesis by (simp add: lit_def)
qed

lemma repeated_tokens:
  "length (spec_tokens (concat (replicate n (lit ''a '')) @ x)) = n + length (spec_tokens x)"
  by (induction n) (simp_all add: lit_def isWhitespace_def)

lemma repeated_words:
  "words (fst (calculateStats 0 (JStr (concat (replicate n (lit ''a '')) @ lit ''a'')))) = Suc n"
proof -
  let ?T = "concat (replicate n (lit ''a '')) @ lit ''a''"
  have "\<not> cjk c \<and> \<not> zeroWidth c" if "c \<in> set ?T" for c
    using repeated_chars [OF that] by (auto simp: cjk_def zeroWidth_def)
  then have nocjk: "\<not> (\<exists>c \<in> set ?T. cjk c)" and norm: "normalizeText (JStr ?T) = ?T"
    by (auto simp: normalizeText_def filter_id_conv)
  have "length (spec_tokens ?T) = n + length (spec_tokens (lit ''a''))"
    by (rule repeated_tokens)
  also have "\<dots> = Suc n" by (simp add: lit_def isWhitespace_def)
  finally show ?thesis
    using nocjk norm by (simp add: calculateStats_words Let_def)
qed

lemma ceiling_by_200:
  fixes w :: nat
  shows "\<lceil>(of_nat w :: 'a :: {floor_ceiling}) / 200\<rceil> = (int w + 199) div 200"
proof -
  have "\<lceil>(of_int (int w) :: 'a) / of_int 200\<rceil> = - (- int w div 200)"
    by (rule ceiling_divide_eq_div)
  then show ?thesis by simp
qed

lemma calculateStats_minutes:
  "readingTimeMinutes (fst (calculateStats li v)) =
     nat \<lceil>(of_nat (words (fst (calculateStats li v))) :: rat) / 200\<rceil>"
  by (cases v)
     (auto simp: calculateStats_def Let_def WORDS_PER_MINUTE_def split: prod.splits)

lemma calculateStats_zero:
  assumes "(\<forall>s. v \<noteq> JStr s) \<or> (\<exists>s. v = JStr s \<and> (\<forall>c \<in> set s. isWhitespace c))"
  shows "fst (calculateStats li v) = \<lparr>words = 0, characters = 0, readingTimeMinutes = 0\<rparr>"
proof (cases v)
  case (JStr s)
  then have "\<forall>c \<in> set s. isWhitespace c" using assms by simp
  then have "\<forall>c \<in> set (normalizeText (JStr s)). isWhitespace c"
    by (simp add: normalizeText_def)
  then have "trim (normalizeText (JStr s)) = []" by (simp add: trim_empty_iff)
  then show ?thesis using JStr by (simp add: calculateStats_def Let_def)
qed (simp_all add: calculateStats_def)

text \<open>
  C9: \<^verbatim>\<open>readingTimeMinutes\<close> is the ceiling of \<^verbatim>\<open>words\<close> divided by 200, whatever the
  state of the regular expression; an input that is not a string, or is empty or
  whitespace-only, yields the zero result; 200 words yield 1 minute and 201 words 2.
\<close>

theorem calculateStats_reading_time:
  "int (readingTimeMinutes (fst (calculateStats li v))) =
     \<lceil>real (words (fst (calculateStats li v))) / 200\<rceil> \<and>
   ((\<forall>s. v \<noteq> JStr s) \<or> (\<exists>s. v = JStr s \<and> (\<forall>c \<in> set s. isWhitespace c)) \<longrightarrow>
      fst (calculateStats li v) = \<lparr>words = 0, characters = 0, readingTimeMinutes = 0\<rparr>) \<and>
   (words (fst (calculateStats li v)) = 200 \<longrightarrow> readingTimeMinutes (fst (calculateStats li v)) = 1) \<and>
   (words (fst (calculateStats li v)) = 201 \<longrightarrow> readingTimeMinutes (fst (calculateStats li v)) = 2)"
proof -
  let ?r = "fst (calculateStats li v)"
  have m: "int (readingTimeMinutes ?r) = (int (words ?r) + 199) div 200"
    unfolding calculateStats_minutes [of li v] ceiling_by_200 by simp
  have "int (readingTimeMinutes ?r) = \<lceil>real (words ?r) / 200\<rceil>"
    unfolding m ceiling_by_200 ..
  moreover have "words ?r = 200 \<longrightarrow> readingTimeMinutes ?r = 1"
    and "words ?r = 201 \<longrightarrow> readingTimeMinutes ?r = 2"
    using m by auto
  ultimately show ?thesis using calculateStats_zero [of v li] by blast
qed

theorem calculateStats_reading_time_witness:
  "words (fst (calculateStats 0 (JStr (concat (replicate 199 (lit ''a '')) @ lit ''a'')))) = 200 \<and>
   readingTimeMinutes
     (fst (calculateStats 0 (JStr (concat (replicate 199 (lit ''a '')) @ lit ''a'')))) = 1 \<and>
   words (fst (calculateStats 0 (JStr (concat (replicate 200 (lit ''a '')) @ lit ''a'')))) = 201 \<and>
   readingTimeMinutes
     (fst (calculateStats 0 (JStr (concat (replicate 200 (lit ''a '')) @ lit ''a'')))) = 2 \<and>
   fst (calculateStats 0 (JStr (lit ''   ''))) = \<lparr>words = 0, characters = 0, readingTimeMinutes = 0\<rparr> \<and>
   fst (calculateStats 0 JUndefined) = \<lparr>words = 0, characters = 0, readingTimeMinutes = 0\<rparr>"
proof -
  have a: "words (fst (calculateStats 0 (JStr (concat (replicate 199 (lit ''a '')) @ lit ''a'')))) = 200"
    unfolding repeated_words by simp
  have b: "words (fst (calculateStats 0 (JStr (concat (replicate 200 (lit ''a '')) @ lit ''a'')))) = 201"
    unfolding repeated_words by simp
  have c: "(\<forall>s. JStr (lit ''   '') \<noteq> JStr s) \<or>
      (\<exists>s. JStr (lit ''   '') = JStr s \<and> (\<forall>c \<in> set s. isWhitespace c))"
    by (simp add: lit_def isWhitespace_def)
  have d: "(\<forall>s. JUndefined \<noteq> JStr s) \<or> (\<exists>s. JUndefined = JStr s \<and> (\<forall>c \<in> set s. isWhitespace c))"
    by simp
  note t200 = calculateStats_reading_time
    [of 0 "JStr (concat (replicate 199 (lit ''a '')) @ lit ''a'')", THEN conjunct2, THEN conjunct2,
     THEN conjunct1, rule_format, OF a]
  note t201 = calculateStats_reading_time
    [of 0 "JStr (concat (replicate 200 (lit ''a '')) @ lit ''a'')", THEN conjunct2, THEN conjunct2,
     THEN conjunct2, rule_format, OF b]
  note z1 = calculateStats_reading_time
    [of 0 "JStr (lit ''   '')", THEN conjunct2, THEN conjunct1, rule_format, OF c]
  note z2 = calculateStats_reading_time
    [of 0 JUndefined, THEN conjunct2, THEN conjunct1, rule_format, OF d]
  show ?thesis
    by (intro conjI) (rule a t200 b t201 z1 z2)+
qed

text \<open>
  The word count in a state of \<^verbatim>\<open>REGEX.cjk\<close> other than the initial one: for a string
  with no CJK character it is the same in every state.
\<close>

lemma regexTest_no_match:
  assumes "\<not> (\<exists>c \<in> set s. cls c)"
  shows "regexTest cls li s = (False, 0)"
proof (cases "li > length s")
  case True
  then show ?thesis by (simp add: regexTest_def)
next
  case False
  have "\<forall>c \<in> set (drop li s). \<not> cls c"
    using assms by (auto dest: in_set_dropD)
  then have "length (takeWhile (\<lambda>c. \<not> cls c) (drop li s)) = length (drop li s)"
    by (simp only: takeWhile_eq_all_conv [THEN iffD2])
  then have "li + length (takeWhile (\<lambda>c. \<not> cls c) (drop li s)) = length s"
    using False by simp
  then show ?thesis using False by (simp only: regexTest_def Let_def) simp
qed

lemma calculateStats_words_no_cjk:
  assumes "\<not> (\<exists>c \<in> set s. cjk c)"
  shows "words (fst (calculateStats li (JStr s))) = length (spec_tokens (normalizeText (JStr s)))"
proof -
  let ?n = "normalizeText (JStr s)"
  let ?t = "trim ?n"
  have "filter cjk ?t = filter cjk s"
    by (simp add: filter_cjk_trim filter_cjk_normalize)
  then have no: "\<not> (\<exists>c \<in> set ?t. cjk c)"
    using assms unfolding ex_cjk_filter by simp
  have tok: "spec_tokens ?n = spec_tokens ?t" by (simp add: spec_tokens_trim)
  show ?thesis
  proof (cases "?t = []")
    case True
    then have "spec_tokens ?n = []" using tok by simp
    moreover have "s = [] \<Longrightarrow> ?n = []" by (simp add: normalizeText_def)
    ultimately show ?thesis using True by (simp add: calculateStats_def Let_def)
  next
    case False
    then have "s \<noteq> []" by (auto simp: normalizeText_def trim_def)
    then show ?thesis
      using False regexTest_no_match [OF no, of li]
      by (simp add: calculateStats_def Let_def calculateWordCount_def containsCJK_def
          split_WORD_SPLIT_tokens tok)
  qed
qed


section \<open>The output scanner\<close>

lemma foldl_scan_None:
  "foldl (\<lambda>st c. case st of None \<Rightarrow> None | Some q' \<Rightarrow> scanStep tags q' c) None s = None"
  by (induction s) simp_all

lemma scanFrom_append:
  "scanFrom tags q (a @ b) =
     (case scanFrom tags q a of None \<Rightarrow> None | Some q' \<Rightarrow> scanFrom tags q' b)"
  by (cases "scanFrom tags q a") (simp_all add: scanFrom_def foldl_scan_None)

lemma scanFrom_Nil: "scanFrom tags q [] = Some q"
  by (simp add: scanFrom_def)

lemma scanFrom_Cons:
  "scanFrom tags q (c # cs) =
     (case scanStep tags q c of None \<Rightarrow> None | Some q' \<Rightarrow> scanFrom tags q' cs)"
  by (cases "scanStep tags q c") (simp_all add: scanFrom_def foldl_scan_None)

lemma passes_Nil: "passes tags q []"
  by (simp add: passes_def scanFrom_Nil)

lemma passes_append: "passes tags q a \<Longrightarrow> passes tags q b \<Longrightarrow> passes tags q (a @ b)"
  by (simp add: passes_def scanFrom_append)

lemma passes_concat: "(\<And>x. x \<in> set xs \<Longrightarrow> passes tags q x) \<Longrightarrow> passes tags q (concat xs)"
  by (induction xs) (simp_all add: passes_Nil passes_append)

lemma passes_join:
  "passes tags q sep \<Longrightarrow> (\<And>x. x \<in> set xs \<Longrightarrow> passes tags q x) \<Longrightarrow> passes tags q (join sep xs)"
  by (induction sep xs rule: join.induct) (simp_all add: passes_Nil passes_append)

lemma passes_filter_join:
  "passes tags q sep \<Longrightarrow> (\<And>x. x \<in> set xs \<Longrightarrow> passes tags q (f x)) \<Longrightarrow>
   passes tags q (join sep (filter (\<lambda>s. s \<noteq> []) (map f xs)))"
  by (rule passes_join) auto

lemma cleanHTML_passes: "cleanHTML tags s \<longleftrightarrow> passes tags InText s"
  by (simp add: cleanHTML_def passes_def)

subsection \<open>Escaped text\<close>

lemma escapeChar_cases:
  "escapeChar c =
     (if c = of_char CHR ''&'' then lit ''&amp;'' else if c = of_char CHR ''<'' then lit ''&lt;''
      else if c = of_char CHR ''>'' then lit ''&gt;'' else if c = of_char CHR 0x22 then lit ''&quot;''
      else if c = of_char CHR 0x27 then lit ''&#39;'' else [c])"
  by (simp add: escapeChar_def htmlEntities_def HTML_ENTITY_MAP_def)

lemma passes_entities:
  "passes tags InText (lit ''&amp;'')" "passes tags InText (lit ''&lt;'')"
  "passes tags InText (lit ''&gt;'')" "passes tags InText (lit ''&quot;'')"
  "passes tags InText (lit ''&#39;'')"
  "passes tags InHref (lit ''&amp;'')" "passes tags InHref (lit ''&lt;'')"
  "passes tags InHref (lit ''&gt;'')" "passes tags InHref (lit ''&quot;'')"
  "passes tags InHref (lit ''&#39;'')"
  by (simp_all add: passes_def scanFrom_Cons scanFrom_Nil ENTITIES_def lit_def)

lemma passes_escapeChar: "passes tags InText (escapeChar c)"
  unfolding escapeChar_cases
  by (simp add: passes_entities) (simp add: passes_def scanFrom_Cons scanFrom_Nil)

lemma passes_escapeHTML: "passes tags InText (escapeHTML v)"
proof (cases v)
  case (JStr s)
  have "passes tags InText (concat (map escapeChar s))"
    by (rule passes_concat) (auto simp: passes_escapeChar)
  then show ?thesis using JStr by (simp add: escapeHTML_def)
qed (simp_all add: escapeHTML_def passes_Nil)

subsection \<open>The href value\<close>

lemma replaceAll_append: "replaceAll c r (a @ b) = replaceAll c r a @ replaceAll c r b"
  by (simp add: replaceAll_def)

lemma replaceAll_Nil: "replaceAll c r [] = []"
  by (simp add: replaceAll_def)

lemma replaceAll_Cons: "replaceAll c r (x # xs) = (if x = c then r else [x]) @ replaceAll c r xs"
  by (simp add: replaceAll_def)

lemma escapeAttribute_single:
  "replaceAll (of_char CHR ''>'') (lit ''&gt;'')
     (replaceAll (of_char CHR ''<'') (lit ''&lt;'')
       (replaceAll (of_char CHR 0x27) (lit ''&#39;'')
         (replaceAll (of_char CHR 0x22) (lit ''&quot;'')
           (replaceAll (of_char CHR ''&'') (lit ''&amp;'') [c])))) = attributeChar c"
  by (simp add: replaceAll_def attributeChar_def lit_def)

lemma escapeAttribute_chars: "escapeAttribute (JStr s) = concat (map attributeChar s)"
proof (induction s)
  case Nil
  show ?case by (simp add: escapeAttribute_def replaceAll_Nil)
next
  case (Cons c s)
  have "escapeAttribute (JStr (c # s)) = escapeAttribute (JStr ([c] @ s))" by simp
  also have "\<dots> = escapeAttribute (JStr [c]) @ escapeAttribute (JStr s)"
    by (simp only: escapeAttribute_def jsval.case replaceAll_append)
  also have "escapeAttribute (JStr [c]) = attributeChar c"
    by (simp only: escapeAttribute_def jsval.case escapeAttribute_single)
  finally show ?case using Cons by simp
qed

lemma passes_attributeChar: "passes tags InHref (attributeChar c)"
  unfolding attributeChar_def
  by (simp add: passes_entities) (simp add: passes_def scanFrom_Cons scanFrom_Nil)

lemma passes_escapeAttribute: "passes tags InHref (escapeAttribute (JStr s))"
  unfolding escapeAttribute_chars by (rule passes_concat) (auto simp: passes_attributeChar)

subsection \<open>Tags\<close>

lemma passes_tags:
  "passes EXPORT_TAGS InText (lit ''<p>'')" "passes EXPORT_TAGS InText (lit ''</p>'')"
  "passes EXPORT_TAGS InText (lit ''<h2>'')" "passes EXPORT_TAGS InText (lit ''</h2>'')"
  "passes EXPORT_TAGS InText (lit ''<h3>'')" "passes EXPORT_TAGS InText (lit ''</h3>'')"
  "passes EXPORT_TAGS InText (lit ''<ul>\<newline>'')" "passes EXPORT_TAGS InText (lit ''\<newline></ul>'')"
  "passes EXPORT_TAGS InText (lit ''\<newline>'')"
  "passes EXPORT_TAGS InText (lit ''<li>'')" "passes EXPORT_TAGS InText (lit ''</li>'')"
  "passes EXPORT_TAGS InText (lit ''<blockquote>'')" "passes EXPORT_TAGS InText (lit ''</blockquote>'')"
  "passes EXPORT_TAGS InText (lit ''<br>'')"
  "passes EXPORT_TAGS InText (lit ''<strong>'')" "passes EXPORT_TAGS InText (lit ''</strong>'')"
  "passes EXPORT_TAGS InText (lit ''<em>'')" "passes EXPORT_TAGS InText (lit ''</em>'')"
  "passes EXPORT_TAGS InText (lit ''<code>'')" "passes EXPORT_TAGS InText (lit ''</code>'')"
  "passes EXPORT_TAGS InText (lit ''</a>'')"
  by (simp_all add: passes_def scanFrom_Cons scanFrom_Nil EXPORT_TAGS_def ALLOWED_TAGS_def lit_def)

lemma scan_anchor:
  \<open>scanFrom EXPORT_TAGS InText (lit ''<a href="'') = Some InHref\<close>
  \<open>scanFrom EXPORT_TAGS InHref (lit ''">'') = Some InText\<close>
  by (simp_all add: scanFrom_Cons scanFrom_Nil EXPORT_TAGS_def ALLOWED_TAGS_def lit_def)

lemma passes_anchor:
  \<open>passes EXPORT_TAGS InText (lit ''<a href="'' @ escapeAttribute (JStr u) @ lit ''">'')\<close>
  using passes_escapeAttribute [of EXPORT_TAGS u]
  by (simp add: passes_def scanFrom_append scan_anchor)

lemma passes_markTags:
  assumes "markTags env m = Some (t_open, t_close)"
  shows "passes EXPORT_TAGS InText t_open \<and> passes EXPORT_TAGS InText t_close"
  using assms
  by (auto simp: markTags_def Let_def passes_tags passes_anchor split: if_splits)

lemma passes_emitted:
  assumes "p \<in> set (emitted env ms)"
  shows "passes EXPORT_TAGS InText (fst p) \<and> passes EXPORT_TAGS InText (snd p)"
proof -
  obtain m where "markTags env m = Some p"
    using assms by (auto simp: emitted_def split: option.splits)
  then show ?thesis using passes_markTags [of env m "fst p" "snd p"] by simp
qed

subsection \<open>Nodes\<close>

lemma passes_processText: "passes EXPORT_TAGS InText (processText env n)"
proof (cases n)
  case (Node t a c tx mk)
  show ?thesis
  proof (cases "t = lit ''text''")
    case False
    then show ?thesis using Node by (simp add: processText_def passes_Nil)
  next
    case True
    show ?thesis
    proof (cases tx)
      case (JStr s)
      show ?thesis
      proof (cases mk)
        case None
        then show ?thesis
          using Node True JStr by (simp add: processText_def passes_escapeHTML)
      next
        case (Some ms)
        let ?e = "emitted env (sortMarks ms)"
        have "passes EXPORT_TAGS InText (concat (map fst ?e))"
          by (rule passes_concat) (auto dest: passes_emitted)
        moreover have "passes EXPORT_TAGS InText (concat (rev (map snd ?e)))"
          by (rule passes_concat) (auto dest: passes_emitted)
        ultimately show ?thesis
          unfolding Node True JStr Some processText_emitted
          by (intro passes_append passes_escapeHTML)
      qed
    qed (simp_all add: Node True processText_def passes_Nil)
  qed
qed

lemma passes_processInline: "passes EXPORT_TAGS InText (processInline env c)"
proof (cases c)
  case None
  then show ?thesis by (simp add: processInline_def passes_Nil)
next
  case (Some ns)
  have "passes EXPORT_TAGS InText (join [] (map (processText env) ns))"
    by (rule passes_join) (auto simp: passes_Nil passes_processText)
  then show ?thesis using Some by (simp add: processInline_def)
qed

lemma passes_processParagraph: "passes EXPORT_TAGS InText (processParagraph env n)"
  unfolding processParagraph_def Let_def
  by (auto intro!: passes_append passes_processInline passes_tags passes_Nil)

lemma passes_processHeading: "passes EXPORT_TAGS InText (processHeading env n)"
proof -
  have h: "passes EXPORT_TAGS InText (lit ''<'' @ tag @ lit ''>'' @ c @ lit ''</'' @ tag @ lit ''>'')"
    if "tag = lit ''h2'' \<or> tag = lit ''h3''" and "passes EXPORT_TAGS InText c" for tag c
  proof -
    have "lit ''<'' @ tag @ lit ''>'' = (if tag = lit ''h2'' then lit ''<h2>'' else lit ''<h3>'')"
      "lit ''</'' @ tag @ lit ''>'' = (if tag = lit ''h2'' then lit ''</h2>'' else lit ''</h3>'')"
      using that(1) by (auto simp: lit_def)
    then have "passes EXPORT_TAGS InText (lit ''<'' @ tag @ lit ''>'')"
      "passes EXPORT_TAGS InText (lit ''</'' @ tag @ lit ''>'')"
      by (simp_all add: passes_tags)
    then have "passes EXPORT_TAGS InText ((lit ''<'' @ tag @ lit ''>'') @ c @ (lit ''</'' @ tag @ lit ''>''))"
      using that(2) by (blast intro: passes_append)
    then show ?thesis by simp
  qed
  show ?thesis
    unfolding processHeading_def Let_def
    by (auto intro!: h passes_processInline passes_Nil)
qed

lemma passes_wrap:
  "passes tags q a \<Longrightarrow> passes tags q b \<Longrightarrow> passes tags q c \<Longrightarrow> passes tags q (a @ b @ c)"
  by (blast intro: passes_append)

lemma passes_blocks:
  "passes EXPORT_TAGS InText (processNode env n) \<and>
   passes EXPORT_TAGS InText (processBulletList env n) \<and>
   passes EXPORT_TAGS InText (processListItem env n) \<and>
   passes EXPORT_TAGS InText (processBlockquote env n)"
proof (induction n rule: measure_induct_rule [where f = size])
  case (less n)
  have child: "passes EXPORT_TAGS InText (processNode env x)"
    "passes EXPORT_TAGS InText (processBulletList env x)"
    if "content n = Some cs" "x \<in> set cs" for cs x
    using less [of x] size_content [OF that] by simp_all
  have bl: "passes EXPORT_TAGS InText (processBulletList env n)"
  proof (cases "content n")
    case None
    then show ?thesis by (simp add: processBulletList.simps [of env n] passes_Nil)
  next
    case (Some cs)
    have "passes EXPORT_TAGS InText
        (join (lit ''\<newline>'') (filter (\<lambda>s. s \<noteq> []) (map (processNode env) cs)))"
      using child(1) [OF Some] by (intro passes_filter_join passes_tags)
    then have "passes EXPORT_TAGS InText
        (lit ''<ul>\<newline>'' @ join (lit ''\<newline>'') (filter (\<lambda>s. s \<noteq> []) (map (processNode env) cs)) @
         lit ''\<newline></ul>'')"
      by (intro passes_wrap passes_tags)
    then show ?thesis
      using Some by (simp add: processBulletList.simps [of env n] Let_def passes_Nil)
  qed
  have li: "passes EXPORT_TAGS InText (processListItem env n)"
  proof (cases "content n")
    case None
    then show ?thesis by (simp add: processListItem.simps [of env n] passes_Nil)
  next
    case (Some cs)
    let ?f = "\<lambda>child. if ntype child = lit ''paragraph'' then processInline env (content child)
                       else if ntype child = lit ''bulletList'' then processBulletList env child
                       else processNode env child"
    have "passes EXPORT_TAGS InText (?f x)" if "x \<in> set cs" for x
      using child [OF Some that] by (simp add: passes_processInline)
    then have "passes EXPORT_TAGS InText (join [] (filter (\<lambda>s. s \<noteq> []) (map ?f cs)))"
      by (intro passes_filter_join passes_Nil)
    then have "passes EXPORT_TAGS InText
        (lit ''<li>'' @ join [] (filter (\<lambda>s. s \<noteq> []) (map ?f cs)) @ lit ''</li>'')"
      by (intro passes_wrap passes_tags)
    then show ?thesis
      using Some by (simp add: processListItem.simps [of env n] Let_def passes_Nil)
  qed
  have bq: "passes EXPORT_TAGS InText (processBlockquote env n)"
  proof (cases "content n")
    case None
    then show ?thesis by (simp add: processBlockquote.simps [of env n] passes_Nil)
  next
    case (Some cs)
    let ?f = "\<lambda>child. if ntype child = lit ''paragraph'' then processInline env (content child)
                       else processNode env child"
    have "passes EXPORT_TAGS InText (?f x)" if "x \<in> set cs" for x
      using child [OF Some that] by (simp add: passes_processInline)
    then have "passes EXPORT_TAGS InText (join (lit ''<br>'') (filter (\<lambda>s. s \<noteq> []) (map ?f cs)))"
      by (intro passes_filter_join passes_tags)
    then have "passes EXPORT_TAGS InText
        (lit ''<blockquote>'' @ join (lit ''<br>'') (filter (\<lambda>s. s \<noteq> []) (map ?f cs)) @
         lit ''</blockquote>'')"
      by (intro passes_wrap passes_tags)
    then show ?thesis
      using Some by (simp add: processBlockquote.simps [of env n] Let_def passes_Nil)
  qed
  have dflt: "passes EXPORT_TAGS InText
      (case content n of Some cs \<Rightarrow> join [] (filter (\<lambda>s. s \<noteq> []) (map (processNode env) cs))
       | None \<Rightarrow> [])"
  proof (cases "content n")
    case None
    then show ?thesis by (simp add: passes_Nil)
  next
    case (Some cs)
    have "passes EXPORT_TAGS InText (join [] (filter (\<lambda>s. s \<noteq> []) (map (processNode env) cs)))"
      using child(1) [OF Some] by (intro passes_filter_join passes_Nil)
    then show ?thesis using Some by simp
  qed
  have "passes EXPORT_TAGS InText (processNode env n)"
    unfolding processNode.simps [of env n]
    using bl li bq dflt
    by (simp add: passes_Nil passes_processParagraph passes_processHeading passes_processText)
  then show ?case using bl li bq by simp
qed

lemma passes_generateCleanHTML: "passes EXPORT_TAGS InText (generateCleanHTML env json)"
proof (cases "content json")
  case None
  then show ?thesis by (simp add: generateCleanHTML_def passes_Nil)
next
  case (Some cs)
  have "passes EXPORT_TAGS InText
      (join (lit ''\<newline>'') (filter (\<lambda>s. s \<noteq> []) (map (processNode env) cs)))"
    using passes_blocks by (intro passes_filter_join passes_tags) simp
  then show ?thesis using Some by (simp add: generateCleanHTML_def)
qed

section \<open>The exporter's output: the claims\<close>

text \<open>
  C1 as stated: every tag of the output is in the allowed set. \<^verbatim>\<open>processBlockquote\<close> joins
  its parts with \<^verbatim>\<open><br>\<close>, which is not in the set.
\<close>

theorem blockquote_br_counterexample:
  "generateCleanHTML sample_env
     (Node (lit ''doc'') None
        (Some [Node (lit ''blockquote'') None
                 (Some [Node (lit ''paragraph'') None
                          (Some [Node (lit ''text'') None None (JStr (lit ''a'')) None]) JUndefined None,
                        Node (lit ''paragraph'') None
                          (Some [Node (lit ''text'') None None (JStr (lit ''b'')) None]) JUndefined None])
                 JUndefined None])
        JUndefined None) = lit ''<blockquote>a<br>b</blockquote>'' \<and>
   \<not> cleanHTML ALLOWED_TAGS (lit ''<blockquote>a<br>b</blockquote>'') \<and>
   lit ''br'' \<notin> set ALLOWED_TAGS"
  by code_simp

text \<open>
  C1, amended: for every document tree, every tag of the output of \<^verbatim>\<open>generateCleanHTML\<close>
  belongs to the allowed set extended by \<^verbatim>\<open>br\<close> (the \<^verbatim>\<open><br>\<close> that joins the parts of a
  blockquote); the text
  of a text node stands in the output with \<^verbatim>\<open>&\<close>, \<^verbatim>\<open><\<close>, \<^verbatim>\<open>>\<close> replaced by entities, and the
  output holds no unescaped \<^verbatim>\<open>&\<close>, \<^verbatim>\<open><\<close>, \<^verbatim>\<open>>\<close> in its text runs.
\<close>

theorem generateCleanHTML_clean:
  "cleanHTML EXPORT_TAGS (generateCleanHTML env json) \<and>
   (\<exists>before after.
      processText env (Node (lit ''text'') a c (JStr s) mk) =
        before @ concat (map escapeChar s) @ after) \<and>
   escapeChar (of_char CHR ''&'') = lit ''&amp;'' \<and>
   escapeChar (of_char CHR ''<'') = lit ''&lt;'' \<and>
   escapeChar (of_char CHR ''>'') = lit ''&gt;''"
proof -
  have "\<exists>before after.
      processText env (Node (lit ''text'') a c (JStr s) mk) =
        before @ concat (map escapeChar s) @ after"
  proof (cases mk)
    case None
    have "processText env (Node (lit ''text'') a c (JStr s) None) = [] @ concat (map escapeChar s) @ []"
      by (simp add: processText_def escapeHTML_def)
    then show ?thesis unfolding None by blast
  next
    case (Some ms)
    show ?thesis
      unfolding Some processText_emitted by (auto simp: escapeHTML_def)
  qed
  moreover have "cleanHTML EXPORT_TAGS (generateCleanHTML env json)"
    by (simp add: cleanHTML_passes passes_generateCleanHTML)
  moreover have "escapeChar (of_char CHR ''&'') = lit ''&amp;''"
    "escapeChar (of_char CHR ''<'') = lit ''&lt;''" "escapeChar (of_char CHR ''>'') = lit ''&gt;''"
    by (simp_all add: escapeChar_cases)
  ultimately show ?thesis by blast
qed

theorem generateCleanHTML_clean_witness:
  \<open>generateCleanHTML sample_env
     (Node (lit ''doc'') None
        (Some [Node (lit ''heading'') (Some \<lparr>level = JNum 3, href = JUndefined\<rparr>)
                 (Some [Node (lit ''text'') None None (JStr (lit ''a<b & c'')) None]) JUndefined None,
               Node (lit ''blockquote'') None
                 (Some [Node (lit ''paragraph'') None
                          (Some [Node (lit ''text'') None None (JStr (lit ''x>y''))
                                   (Some [Mark (lit ''bold'') None,
                                          Mark (lit ''link'')
                                            (Some \<lparr>level = JUndefined,
                                                   href = JStr (lit ''https://x.com/?a=1&b=2'')\<rparr>)])])
                          JUndefined None,
                        Node (lit ''paragraph'') None
                          (Some [Node (lit ''text'') None None (JStr (lit ''z'')) None]) JUndefined None])
                 JUndefined None])
        JUndefined None) =
     lit ''<h3>a&lt;b &amp; c</h3>\<newline><blockquote><a href="https://x.com/?a=1&amp;b=2"><strong>x&gt;y</strong></a><br>z</blockquote>'' \<and>
   cleanHTML EXPORT_TAGS
     (lit ''<h3>a&lt;b &amp; c</h3>\<newline><blockquote><a href="https://x.com/?a=1&amp;b=2"><strong>x&gt;y</strong></a><br>z</blockquote>'')\<close>
proof -
  let ?doc = "Node (lit ''doc'') None
        (Some [Node (lit ''heading'') (Some \<lparr>level = JNum 3, href = JUndefined\<rparr>)
                 (Some [Node (lit ''text'') None None (JStr (lit ''a<b & c'')) None]) JUndefined None,
               Node (lit ''blockquote'') None
                 (Some [Node (lit ''paragraph'') None
                          (Some [Node (lit ''text'') None None (JStr (lit ''x>y''))
                                   (Some [Mark (lit ''bold'') None,
                                          Mark (lit ''link'')
                                            (Some \<lparr>level = JUndefined,
                                                   href = JStr (lit ''https://x.com/?a=1&b=2'')\<rparr>)])])
                          JUndefined None,
                        Node (lit ''paragraph'') None
                          (Some [Node (lit ''text'') None None (JStr (lit ''z'')) None]) JUndefined None])
                 JUndefined None])
        JUndefined None"
  have out: \<open>generateCleanHTML sample_env ?doc =
     lit ''<h3>a&lt;b &amp; c</h3>\<newline><blockquote><a href="https://x.com/?a=1&amp;b=2"><strong>x&gt;y</strong></a><br>z</blockquote>''\<close>
    by code_simp
  have "cleanHTML EXPORT_TAGS (generateCleanHTML sample_env ?doc)"
    using generateCleanHTML_clean [of sample_env ?doc] by (rule conjunct1)
  then show ?thesis unfolding out using out by simp
qed

end
